theory Spec2Isabelle
  imports Complex_Main "HOL-Library.Multiset" "HOL-Library.Char_ord" "HOL-Library.List_Lexorder"
    "HOL-Library.Log_Nat"
begin

section \<open>Flashcard test (FlashcardView, FlashcardTestView)\<close>

text \<open>
  \<^verbatim>\<open>type Flashcard = { question: string; answer: string; }\<close>
\<close>

record Flashcard =
  question :: string
  answer :: string

text \<open>
  The state object of \<^verbatim>\<open>useState({ active, cardsToTest, masteredCards, currentIndex,
  showAnswer })\<close> in FlashcardView. The transitions never look inside a card, so the
  state is polymorphic in the card type.
\<close>

record 'c testState =
  active :: bool
  cardsToTest :: "'c list"
  masteredCards :: "'c list"
  currentIndex :: nat
  showAnswer :: bool

subsection \<open>Starting a test: \<^verbatim>\<open>[...flashcards].sort(() => Math.random() - 0.5)\<close>\<close>

text \<open>
  \<^verbatim>\<open>Math.random()\<close> is modelled by its contract: every call returns a number \<open>r\<close>
  with \<open>0 \<le> r < 1\<close>, here a rational. The successive calls made while sorting are a
  sequence \<open>rnd 0, rnd 1, ...\<close>; a counter is threaded through the sort.

  The comparator ignores both arguments and returns \<^verbatim>\<open>Math.random() - 0.5\<close>; a negative
  result puts the first argument before the second.
\<close>

definition compareFn :: "rat \<Rightarrow> rat" where
  "compareFn r = r - 1 / 2"

text \<open>
  \<^verbatim>\<open>Array.prototype.sort\<close> belongs to the JavaScript engine. It is modelled as an
  insertion sort that calls the comparator once for each comparison it makes.
\<close>

fun insert_cmp :: "(nat \<Rightarrow> rat) \<Rightarrow> nat \<Rightarrow> 'c \<Rightarrow> 'c list \<Rightarrow> 'c list \<times> nat" where
  "insert_cmp rnd n x [] = ([x], n)"
| "insert_cmp rnd n x (y # ys) =
     (if compareFn (rnd n) < 0 then (x # y # ys, Suc n)
      else (let (zs, n') = insert_cmp rnd (Suc n) x ys in (y # zs, n')))"

fun sort_cmp :: "(nat \<Rightarrow> rat) \<Rightarrow> nat \<Rightarrow> 'c list \<Rightarrow> 'c list \<times> nat" where
  "sort_cmp rnd n [] = ([], n)"
| "sort_cmp rnd n (x # xs) =
     (let (ys, n') = sort_cmp rnd n xs in insert_cmp rnd n' x ys)"

text \<open>
  The click handler of "Test My Knowledge":
  \<^verbatim>\<open>setTestState({ active: true, cardsToTest: [...flashcards].sort(...), masteredCards: [],
  currentIndex: 0, showAnswer: false })\<close>
\<close>

definition startTest :: "(nat \<Rightarrow> rat) \<Rightarrow> 'c list \<Rightarrow> 'c testState" where
  "startTest rnd flashcards =
     \<lparr>active = True,
      cardsToTest = fst (sort_cmp rnd 0 flashcards),
      masteredCards = [],
      currentIndex = 0,
      showAnswer = False\<rparr>"

subsection \<open>FlashcardTestView\<close>

datatype js_error = TypeError | ReferenceError

text \<open>
  What FlashcardTestView renders: the completion screen when \<^verbatim>\<open>cardsToTest.length === 0\<close>,
  otherwise the card \<^verbatim>\<open>state.cardsToTest[state.currentIndex]\<close> (and whether its answer is
  shown). An index outside the array reads \<^verbatim>\<open>undefined\<close>, and rendering
  \<^verbatim>\<open>currentCard.question\<close> then throws a TypeError.
\<close>

datatype 'c testView = Congratulations | TestCard 'c bool

definition FlashcardTestView :: "'c testState \<Rightarrow> js_error + 'c testView" where
  "FlashcardTestView state =
     (if length (cardsToTest state) = 0 then Inr Congratulations
      else if currentIndex state < length (cardsToTest state)
      then Inr (TestCard (cardsToTest state ! currentIndex state) (showAnswer state))
      else Inl TypeError)"

text \<open>
  \<^verbatim>\<open>xs.splice(i, 1)\<close>: the removed elements (at most one) and the array that remains.
\<close>

definition splice_remove :: "nat \<Rightarrow> 'a list \<Rightarrow> 'a list \<times> 'a list" where
  "splice_remove i xs = (take 1 (drop i xs), take i xs @ drop (Suc i) xs)"

text \<open>
  \<^verbatim>\<open>xs.splice(i, 0, x)\<close>: insert \<open>x\<close> before position \<open>i\<close>; a start beyond the end is
  clamped to the length.
\<close>

definition splice_insert :: "nat \<Rightarrow> 'a \<Rightarrow> 'a list \<Rightarrow> 'a list" where
  "splice_insert i x xs = take i xs @ x # drop i xs"

text \<open>
  The numbers of the program are IEEE 754 doubles. A finite double is \<open>m * 2^e\<close> for
  integers \<open>\<bar>m\<bar> < 2^53\<close> and \<open>e \<ge> -1074\<close>, so it is a rational whose denominator divides
  \<open>2^1074\<close>; the model computes with rationals and rounds where the program does.

  \<open>round_to_even n q\<close>: the multiple \<open>k * q\<close> of \<open>q\<close> nearest to \<open>n\<close>, as its factor \<open>k\<close>;
  of two nearest multiples the one with the even factor.
\<close>

definition round_to_even :: "int \<Rightarrow> int \<Rightarrow> int" where
  "round_to_even n q =
     (let k = n div q; rest = n mod q
      in if 2 * rest < q then k
         else if q < 2 * rest then k + 1
         else if even k then k else k + 1)"

text \<open>
  The double nearest to the rational \<open>x = n / d\<close> (round to nearest, ties to even, the
  rounding of every arithmetic operation of the program), for \<open>\<bar>x\<bar> < 2^1024\<close>. In units
  of \<open>1 / d\<close> the doubles around \<open>x\<close> are the multiples of \<open>quantum\<close>: a significand has 53
  bits, so the \<open>bitlen \<bar>n\<bar> - 53\<close> lowest bits of \<open>n\<close> are rounded away, and no double is
  finer than \<open>2^-1074\<close>, which is \<open>d / 2^1074\<close> units.
\<close>

definition round_double :: "rat \<Rightarrow> rat" where
  "round_double x =
     (let (n, d) = quotient_of x;
          quantum = max (2 ^ nat (bitlen \<bar>n\<bar> - 53)) (max (d div 2 ^ 1074) 1)
      in rat_of_int (round_to_even n quantum * quantum) / rat_of_int d)"

text \<open>
  The values \<^verbatim>\<open>Math.random()\<close> can return: the doubles \<open>r\<close> with \<open>0 \<le> r < 1\<close>.
\<close>

definition is_random :: "rat \<Rightarrow> bool" where
  "is_random r \<longleftrightarrow>
     0 \<le> r \<and> r < 1 \<and> (let (n, d) = quotient_of r in n < 2 ^ 53 \<and> d dvd 2 ^ 1074)"

text \<open>
  \<^verbatim>\<open>Math.floor(cardsToTest.length / 2) + Math.floor(Math.random() * (cardsToTest.length / 2))\<close>,
  where the division is the division of numbers, not of integers, and \<open>r\<close> is the value
  \<^verbatim>\<open>Math.random()\<close> returned. An array has fewer than \<open>2^32\<close> elements, so the length,
  its half, the two floors and their sum are doubles and are computed exactly; the
  product is rounded.
\<close>

definition insertIndex :: "nat \<Rightarrow> rat \<Rightarrow> nat" where
  "insertIndex len r =
     nat \<lfloor>rat_of_nat len / 2\<rfloor> + nat \<lfloor>round_double (r * (rat_of_nat len / 2))\<rfloor>"

text \<open>
  The non-negative rationals whose denominator is a power of two; the draws and their
  products with half a length are of this kind.
\<close>

definition dyadic :: "rat \<Rightarrow> bool" where
  "dyadic x \<longleftrightarrow> 0 \<le> x \<and> (\<exists>s. snd (quotient_of x) = 2 ^ s)"

text \<open>
  \<^verbatim>\<open>handleAnswer(knewIt)\<close>, with the value \<open>r\<close> that \<^verbatim>\<open>Math.random()\<close> returns when it is
  called. The handler is attached to buttons that exist only when the view has rendered a
  card; when the card at \<^verbatim>\<open>currentIndex\<close> is \<^verbatim>\<open>undefined\<close> (the completion screen, or
  the TypeError above) the result is \<open>None\<close>: there is no button to click.
\<close>

definition handleAnswer :: "bool \<Rightarrow> rat \<Rightarrow> 'c testState \<Rightarrow> 'c testState option" where
  "handleAnswer knewIt r state =
     (case splice_remove (currentIndex state) (cardsToTest state) of
        ([], rest) \<Rightarrow> None
      | (current # other, rest) \<Rightarrow>
          (let nextState = state\<lparr>showAnswer := False, currentIndex := currentIndex state\<rparr>;
               nextState = (if knewIt
                            then nextState\<lparr>masteredCards := masteredCards state @ [current]\<rparr>
                            else nextState);
               cardsToTest' = (if knewIt then rest
                               else splice_insert (insertIndex (length rest) r) current rest);
               nextState = (if currentIndex state \<ge> length cardsToTest'
                            then nextState\<lparr>currentIndex := 0\<rparr> else nextState)
           in Some (nextState\<lparr>cardsToTest := cardsToTest'\<rparr>)))"

text \<open>
  The states a test can be in for a deck: the state set by "Test My Knowledge" (at the
  first test or at a later one), then any number of clicks on "Show Answer"
  (\<^verbatim>\<open>{ ...prev, showAnswer: true }\<close>), on "I Knew It!" and "Needs Review" (shown once the
  answer is shown), with any values returned by \<^verbatim>\<open>Math.random()\<close>, and on "Back to
  Flashcards" (\<^verbatim>\<open>{ ...prev, active: false }\<close>, shown on the completion screen). Every
  rational \<open>0 \<le> r < 1\<close> is admitted as a draw, the doubles among them.
\<close>

inductive reachable :: "'c list \<Rightarrow> 'c testState \<Rightarrow> bool" for deck :: "'c list" where
  start: "reachable deck (startTest rnd deck)"
| reveal: "reachable deck s \<Longrightarrow> reachable deck (s\<lparr>showAnswer := True\<rparr>)"
| answer: "reachable deck s \<Longrightarrow> showAnswer s \<Longrightarrow> 0 \<le> r \<Longrightarrow> r < 1
           \<Longrightarrow> handleAnswer knewIt r s = Some s' \<Longrightarrow> reachable deck s'"
| leave: "reachable deck s \<Longrightarrow> cardsToTest s = [] \<Longrightarrow> reachable deck (s\<lparr>active := False\<rparr>)"


text \<open>
  A measure of how the reinsertion index is distributed: of the \<open>m\<close> equally spaced
  draws \<open>0/m, 1/m, ..., (m-1)/m\<close> of \<^verbatim>\<open>Math.random()\<close> (doubles when \<open>m\<close> is a power of
  two up to \<open>2^53\<close>), the number that make \<open>insertIndex len\<close> choose index \<open>i\<close>.
\<close>

definition draws_selecting :: "nat \<Rightarrow> nat \<Rightarrow> nat \<Rightarrow> nat" where
  "draws_selecting len m i =
     length (filter (\<lambda>k. insertIndex len (rat_of_nat k / rat_of_nat m) = i) [0..<m])"

text \<open>A deck of three cards for the examples.\<close>

definition exampleDeck :: "Flashcard list" where
  "exampleDeck =
     [\<lparr>question = ''2 + 2'', answer = ''4''\<rparr>,
      \<lparr>question = ''3 + 3'', answer = ''6''\<rparr>,
      \<lparr>question = ''4 + 4'', answer = ''8''\<rparr>]"

subsection \<open>Properties of the flashcard test\<close>

lemma insert_cmp_mset: "mset (fst (insert_cmp rnd n x ys)) = add_mset x (mset ys)"
proof (induction ys arbitrary: n)
  case Nil
  show ?case by simp
next
  case (Cons y ys)
  obtain zs n' where i: "insert_cmp rnd (Suc n) x ys = (zs, n')"
    by (cases "insert_cmp rnd (Suc n) x ys")
  with Cons.IH [of "Suc n"] have "mset zs = add_mset x (mset ys)" by simp
  with i show ?case by simp
qed

lemma sort_cmp_mset: "mset (fst (sort_cmp rnd n xs)) = mset xs"
proof (induction xs arbitrary: n)
  case Nil
  show ?case by simp
next
  case (Cons x xs)
  obtain ys n' where s: "sort_cmp rnd n xs = (ys, n')" by (cases "sort_cmp rnd n xs")
  with Cons.IH [of n] have "mset ys = mset xs" by simp
  with s show ?case by (simp add: insert_cmp_mset)
qed

lemma splice_remove_Some:
  "i < length xs \<Longrightarrow> splice_remove i xs = ([xs ! i], take i xs @ drop (Suc i) xs)"
proof -
  assume i: "i < length xs"
  then have "drop i xs = xs ! i # drop (Suc i) xs" by (rule Cons_nth_drop_Suc [symmetric])
  then have "take 1 (drop i xs) = [xs ! i]" by simp
  then show ?thesis by (simp add: splice_remove_def)
qed

lemma splice_remove_None:
  "length xs \<le> i \<Longrightarrow> fst (splice_remove i xs) = []"
  by (simp add: splice_remove_def)

lemma splice_remove_mset:
  "splice_remove i xs = (c # other, rest) \<Longrightarrow> mset xs = add_mset c (mset rest) \<and> other = [] \<and> i < length xs \<and> c = xs ! i \<and> length xs = Suc (length rest)"
proof -
  assume a: "splice_remove i xs = (c # other, rest)"
  have i: "i < length xs"
  proof (rule ccontr)
    assume "\<not> i < length xs"
    then have "fst (splice_remove i xs) = []" by (simp add: splice_remove_None)
    with a show False by simp
  qed
  from a splice_remove_Some [OF i] have c: "c = xs ! i" "other = []" "rest = take i xs @ drop (Suc i) xs" by simp_all
  have "xs = take i xs @ xs ! i # drop (Suc i) xs" using i by (rule id_take_nth_drop)
  then have "mset xs = mset (take i xs @ xs ! i # drop (Suc i) xs)" by (rule arg_cong)
  then have m: "mset xs = add_mset c (mset rest)" using c by simp
  have l: "length xs = Suc (length rest)" using c i by simp
  show ?thesis using m l c(1,2) i by blast
qed

lemma splice_insert_mset: "mset (splice_insert i x xs) = add_mset x (mset xs)"
proof -
  have "mset (splice_insert i x xs) = add_mset x (mset (take i xs @ drop i xs))"
    unfolding splice_insert_def by (simp del: append_take_drop_id)
  then show ?thesis by simp
qed

lemma handleAnswer_mset:
  assumes "handleAnswer k r s = Some s'"
  shows "mset (cardsToTest s') + mset (masteredCards s') = mset (cardsToTest s) + mset (masteredCards s)"
proof -
  obtain rem rest where sp: "splice_remove (currentIndex s) (cardsToTest s) = (rem, rest)"
    by (cases "splice_remove (currentIndex s) (cardsToTest s)")
  with assms obtain c other where r: "rem = c # other" by (cases rem) (auto simp: handleAnswer_def)
  from splice_remove_mset [OF sp [unfolded r]] have m: "mset (cardsToTest s) = add_mset c (mset rest)" by simp
  from assms sp r show ?thesis
    by (cases k) (auto simp: handleAnswer_def Let_def m splice_insert_mset split: if_splits)
qed

lemma reachable_mset: "reachable deck s \<Longrightarrow> mset (cardsToTest s) + mset (masteredCards s) = mset deck"
proof (induction rule: reachable.induct)
  case (start rnd)
  show ?case by (simp add: startTest_def sort_cmp_mset)
next
  case (reveal s)
  then show ?case by simp
next
  case (answer s r knewIt s')
  then show ?case using handleAnswer_mset by metis
next
  case (leave s)
  then show ?case by simp
qed


subsection \<open>Rounding to a double\<close>

lemma round_to_even_bounds:
  assumes "0 < q"
  shows "2 * (round_to_even n q * q) \<le> 2 * n + q"
    and "2 * n \<le> 2 * (round_to_even n q * q) + q"
    and "(n div q) * q \<le> round_to_even n q * q"
proof -
  define k where "k = n div q"
  define rest where "rest = n mod q"
  have n: "n = k * q + rest" unfolding k_def rest_def by simp
  have r: "0 \<le> rest" "rest < q" unfolding rest_def using assms by simp_all
  have v: "round_to_even n q = k \<or> round_to_even n q = k + 1"
    unfolding round_to_even_def Let_def k_def by simp
  have a: "round_to_even n q = k + 1 \<Longrightarrow> q \<le> 2 * rest"
    unfolding round_to_even_def Let_def k_def rest_def by (simp split: if_splits)
  have b: "round_to_even n q = k \<Longrightarrow> 2 * rest \<le> q"
    unfolding round_to_even_def Let_def k_def rest_def by (simp split: if_splits)
  have c: "round_to_even n q * q = k * q \<and> 2 * rest \<le> q
         \<or> round_to_even n q * q = k * q + q \<and> q \<le> 2 * rest"
    using v a b by (auto simp: algebra_simps)
  from c n r show "2 * (round_to_even n q * q) \<le> 2 * n + q" by linarith
  from c n r show "2 * n \<le> 2 * (round_to_even n q * q) + q" by linarith
  have "n div q * q = k * q" by (simp add: k_def)
  with c assms show "(n div q) * q \<le> round_to_even n q * q" by linarith
qed

lemma round_to_even_one: "round_to_even n 1 = n"
  by (simp add: round_to_even_def)

lemma dvd_two_power:
  fixes d :: int
  assumes "d dvd 2 ^ k" "0 < d"
  shows "\<exists>t \<le> k. d = 2 ^ t"
  using assms
proof (induction k arbitrary: d)
  case 0
  then have "d = 1" by simp
  then show ?case by simp
next
  case (Suc k)
  show ?case
  proof (cases "even d")
    case True
    then obtain e where e: "d = 2 * e" by (auto elim: evenE)
    with Suc.prems have "e dvd 2 ^ k" "0 < e" by simp_all
    then obtain t where "t \<le> k" "e = 2 ^ t" using Suc.IH by blast
    with e have "Suc t \<le> Suc k" "d = 2 ^ Suc t" by simp_all
    then show ?thesis by blast
  next
    case False
    then have "coprime d 2" by (simp add: coprime_right_2_iff_odd)
    then have "coprime d (2 ^ Suc k)" by (simp only: coprime_power_right_iff) simp
    with Suc.prems(1) have "is_unit d" by (meson coprime_absorb_left dvd_refl coprime_common_divisor)
    with Suc.prems(2) have "d = 1" by simp
    then have "d = 2 ^ 0" by simp
    then show ?thesis by blast
  qed
qed

lemma quotient_of_dvd:
  assumes "x * 2 ^ k = rat_of_int a"
  shows "snd (quotient_of x) dvd 2 ^ k"
proof -
  obtain n d where q: "quotient_of x = (n, d)" by (cases "quotient_of x")
  have d: "0 < d" using q by (rule quotient_of_denom_pos)
  have c: "coprime n d" using q by (rule quotient_of_coprime)
  have x: "x = rat_of_int n / rat_of_int d" using q by (rule quotient_of_div)
  from assms x d have "rat_of_int n * 2 ^ k = rat_of_int a * rat_of_int d"
    by (simp add: field_simps)
  then have "rat_of_int (n * 2 ^ k) = rat_of_int (a * d)" by simp
  then have "n * 2 ^ k = a * d" by (simp only: of_int_eq_iff)
  then have "d dvd n * 2 ^ k" by simp
  with c have "d dvd 2 ^ k" by (simp add: coprime_commute coprime_dvd_mult_right_iff)
  with q show ?thesis by simp
qed

lemma dyadicI:
  assumes "0 \<le> x" "x * 2 ^ k = rat_of_int a"
  shows "dyadic x"
proof -
  obtain n d where q: "quotient_of x = (n, d)" by (cases "quotient_of x")
  have "0 < d" using q by (rule quotient_of_denom_pos)
  moreover have "d dvd 2 ^ k" using quotient_of_dvd [OF assms(2)] q by simp
  ultimately obtain t where "d = 2 ^ t" using dvd_two_power by blast
  with q assms(1) show ?thesis by (auto simp: dyadic_def)
qed

lemma round_double_cases:
  assumes "dyadic x"
  obtains n s t where "quotient_of x = (n, 2 ^ s)" "0 \<le> n" "x = rat_of_int n / 2 ^ s"
    "t = max (nat (bitlen n - 53)) (s - 1074)"
    "round_double x = rat_of_int (round_to_even n (2 ^ t) * 2 ^ t) / 2 ^ s"
proof -
  obtain n d where q: "quotient_of x = (n, d)" by (cases "quotient_of x")
  from assms q obtain s where d: "d = 2 ^ s" by (auto simp: dyadic_def)
  have x: "x = rat_of_int n / 2 ^ s" using quotient_of_div [OF q] d by simp
  have "0 \<le> rat_of_int n / 2 ^ s" using assms x by (simp add: dyadic_def)
  moreover have "(0::rat) < 2 ^ s" by simp
  ultimately have "0 \<le> rat_of_int n" by (simp only: zero_le_divide_iff) auto
  then have n: "0 \<le> n" by simp
  then have an: "\<bar>n\<bar> = n" by simp
  have m: "max ((2::int) ^ s div 2 ^ 1074) 1 = 2 ^ (s - 1074)"
  proof (cases "1074 \<le> s")
    case True
    then have "s = (s - 1074) + 1074" by simp
    then have "(2::int) ^ s = 2 ^ (s - 1074) * 2 ^ 1074"
      by (metis power_add)
    then have "(2::int) ^ s div 2 ^ 1074 = 2 ^ (s - 1074)" by simp
    then show ?thesis by simp
  next
    case False
    then have "s < 1074" by simp
    then have "(2::int) ^ s < 2 ^ 1074" by (rule power_strict_increasing) simp
    then have "(2::int) ^ s div 2 ^ 1074 = 0" by (simp add: div_pos_pos_trivial)
    with False show ?thesis by simp
  qed
  have p: "max ((2::int) ^ a) (2 ^ b) = 2 ^ max a b" for a b :: nat
    by (cases "a \<le> b") (simp_all add: max_def)
  have "round_double x = rat_of_int (round_to_even n (2 ^ max (nat (bitlen n - 53)) (s - 1074))
          * 2 ^ max (nat (bitlen n - 53)) (s - 1074)) / 2 ^ s"
    unfolding round_double_def q d prod.case Let_def m p an by simp
  with q d n x show ?thesis using that by blast
qed

lemma round_double_nonneg:
  assumes "dyadic x"
  shows "0 \<le> round_double x"
proof -
  from assms obtain n s t where h: "0 \<le> n"
      "round_double x = rat_of_int (round_to_even n (2 ^ t) * 2 ^ t) / 2 ^ s"
    by (rule round_double_cases)
  have q: "(0::int) < 2 ^ t" by simp
  have "0 \<le> n div 2 ^ t" using h(1) q by (simp add: pos_imp_zdiv_nonneg_iff)
  then have "0 \<le> (n div 2 ^ t) * 2 ^ t" by simp
  also have "\<dots> \<le> round_to_even n (2 ^ t) * 2 ^ t" using q by (rule round_to_even_bounds(3))
  finally have "0 \<le> rat_of_int (round_to_even n (2 ^ t) * 2 ^ t)" by (simp only: of_int_0_le_iff)
  then show ?thesis unfolding h(2) by simp
qed

lemma bitlen_le_power:
  assumes "0 \<le> n" "n < 2 ^ k"
  shows "bitlen n \<le> int k"
proof (cases "n = 0")
  case True
  then show ?thesis by simp
next
  case False
  with assms have p: "0 < n" by simp
  have "2 ^ nat (bitlen n - 1) \<le> n" using bitlen_bounds [OF p] by blast
  with assms(2) have "(2::int) ^ nat (bitlen n - 1) < 2 ^ k" by linarith
  then have "nat (bitlen n - 1) < k" by simp
  then show ?thesis by linarith
qed

lemma power_le_bitlen:
  assumes "0 \<le> n" "bitlen n \<le> int k"
  shows "n < 2 ^ k"
proof (cases "n = 0")
  case True
  then show ?thesis by simp
next
  case False
  with assms have p: "0 < n" by simp
  have "n < 2 ^ nat (bitlen n)" using bitlen_bounds [OF p] by blast
  also have "(2::int) ^ nat (bitlen n) \<le> 2 ^ k" using assms(2) by (intro power_increasing) simp_all
  finally show ?thesis .
qed

lemma round_double_lower:
  assumes "dyadic x" "x < 2 ^ 53" "rat_of_int F \<le> x"
  shows "rat_of_int F \<le> round_double x"
proof -
  from assms(1) obtain n s t where h: "0 \<le> n" "x = rat_of_int n / 2 ^ s"
      "t = max (nat (bitlen n - 53)) (s - 1074)"
      "round_double x = rat_of_int (round_to_even n (2 ^ t) * 2 ^ t) / 2 ^ s"
    by (rule round_double_cases)
  have "rat_of_int n < 2 ^ 53 * 2 ^ s" using assms(2) unfolding h(2) by (simp add: field_simps)
  then have "rat_of_int n < rat_of_int (2 ^ (53 + s))" by (simp add: power_add)
  then have "n < 2 ^ (53 + s)" by (simp only: of_int_less_iff)
  with h(1) have "bitlen n \<le> int (53 + s)" by (rule bitlen_le_power)
  then have "nat (bitlen n - 53) \<le> s" by simp
  then have ts: "t \<le> s" unfolding h(3) by simp
  have "rat_of_int F * 2 ^ s \<le> rat_of_int n" using assms(3) unfolding h(2) by (simp add: field_simps)
  then have "rat_of_int (F * 2 ^ s) \<le> rat_of_int n" by simp
  then have f: "F * 2 ^ s \<le> n" by (simp only: of_int_le_iff)
  from ts have "s = (s - t) + t" by simp
  then have e: "(2::int) ^ s = 2 ^ (s - t) * 2 ^ t" by (metis power_add)
  have q: "(0::int) < 2 ^ t" by simp
  from f e have "(F * 2 ^ (s - t)) * 2 ^ t \<le> n" by (simp add: mult.assoc)
  then have "(F * 2 ^ (s - t)) * 2 ^ t div 2 ^ t \<le> n div 2 ^ t" using q by (rule zdiv_mono1)
  then have "F * 2 ^ (s - t) \<le> n div 2 ^ t" by simp
  then have "(F * 2 ^ (s - t)) * 2 ^ t \<le> (n div 2 ^ t) * 2 ^ t" using q by simp
  also have "\<dots> \<le> round_to_even n (2 ^ t) * 2 ^ t" using q by (rule round_to_even_bounds(3))
  finally have "F * 2 ^ s \<le> round_to_even n (2 ^ t) * 2 ^ t" using e by (simp add: mult.assoc)
  then have "rat_of_int (F * 2 ^ s) \<le> rat_of_int (round_to_even n (2 ^ t) * 2 ^ t)"
    by (simp only: of_int_le_iff)
  then have "rat_of_int F * 2 ^ s \<le> rat_of_int (round_to_even n (2 ^ t) * 2 ^ t)" by simp
  then show ?thesis unfolding h(4) by (simp add: field_simps)
qed

lemma round_double_upper:
  assumes "dyadic x"
  shows "round_double x \<le> x * (1 + 1 / 2 ^ 53) \<or> round_double x < 1"
proof -
  from assms obtain n s t where h: "0 \<le> n" "x = rat_of_int n / 2 ^ s"
      "t = max (nat (bitlen n - 53)) (s - 1074)"
      "round_double x = rat_of_int (round_to_even n (2 ^ t) * 2 ^ t) / 2 ^ s"
    by (rule round_double_cases)
  define R where "R = round_to_even n (2 ^ t) * 2 ^ t"
  have q: "(0::int) < 2 ^ t" by simp
  have u: "2 * R \<le> 2 * n + 2 ^ t" unfolding R_def using q by (rule round_to_even_bounds(1))
  have rd: "round_double x = rat_of_int R / 2 ^ s" unfolding h(4) R_def ..
  define a where "a = nat (bitlen n - 53)"
  have "t = max a (s - 1074)" unfolding a_def by (rule h(3))
  then have "t = 0 \<or> 0 < t \<and> t = a \<or> 0 < t \<and> a < t \<and> t = s - 1074" by linarith
  then consider (exact) "t = 0" | (normal) "0 < t" "t = nat (bitlen n - 53)"
    | (subnormal) "0 < t" "nat (bitlen n - 53) < t" "t = s - 1074"
    unfolding a_def by blast
  then show ?thesis
  proof cases
    case exact
    then have "R = n" unfolding R_def by (simp add: round_to_even_one)
    then have "rat_of_int R / 2 ^ s = rat_of_int n / 2 ^ s" by simp
    then have "round_double x = x" by (simp only: rd [symmetric] h(2) [symmetric])
    moreover have "0 \<le> x" using assms by (simp add: dyadic_def)
    ultimately show ?thesis by (simp add: algebra_simps)
  next
    case normal
    then have b: "bitlen n = int t + 53" by linarith
    then have "0 < n" using h(1) normal(1) bitlen_eq_zero_iff [of n] by (cases "n = 0") auto
    then have "2 ^ nat (bitlen n - 1) \<le> n" using bitlen_bounds by blast
    moreover have "nat (bitlen n - 1) = t + 52" using b by simp
    ultimately have "(2::int) ^ (t + 52) \<le> n" by simp
    then have "(2::int) ^ t * 2 ^ 52 \<le> n" by (simp only: power_add)
    with u have "2 ^ 53 * R \<le> 2 ^ 53 * n + n" by simp
    then have "rat_of_int (2 ^ 53 * R) \<le> rat_of_int (2 ^ 53 * n + n)" by (simp only: of_int_le_iff)
    then have "2 ^ 53 * rat_of_int R \<le> 2 ^ 53 * rat_of_int n + rat_of_int n" by simp
    then have "rat_of_int R \<le> rat_of_int n * (1 + 1 / 2 ^ 53)" by (simp add: field_simps)
    then have "rat_of_int R / 2 ^ s \<le> rat_of_int n * (1 + 1 / 2 ^ 53) / 2 ^ s"
      by (rule divide_right_mono) simp
    then have "rat_of_int R / 2 ^ s \<le> (rat_of_int n / 2 ^ s) * (1 + 1 / 2 ^ 53)" by simp
    then have "round_double x \<le> x * (1 + 1 / 2 ^ 53)" by (simp only: rd [symmetric] h(2) [symmetric])
    then show ?thesis ..
  next
    case subnormal
    then have "bitlen n \<le> int (t + 52)" by linarith
    with h(1) have "n < 2 ^ (t + 52)" by (rule power_le_bitlen)
    with u have "2 * R < 2 * 2 ^ (t + 52) + 2 ^ t" by simp
    also have "\<dots> = 2 ^ t * (2 ^ 53 + 1)" by (simp add: power_add)
    also have "\<dots> \<le> 2 ^ t * (2 * 2 ^ 1073)" by (intro mult_left_mono) simp_all
    finally have "R < 2 ^ t * 2 ^ 1073" by simp
    moreover have "s = t + 1074" using subnormal by simp
    then have "(2::int) ^ s = 2 ^ t * 2 ^ 1074" by (simp only: power_add)
    moreover have "(2::int) ^ t * 2 ^ 1073 \<le> 2 ^ t * 2 ^ 1074" by (intro mult_left_mono) simp_all
    ultimately have "R < 2 ^ s" by linarith
    then have "rat_of_int R < rat_of_int (2 ^ s)" by (simp only: of_int_less_iff)
    then have "rat_of_int R / 2 ^ s < 1" by simp
    then have "round_double x < 1" by (simp only: rd [symmetric])
    then show ?thesis ..
  qed
qed

lemma is_random_cases:
  assumes "is_random r"
  obtains n s where "r = rat_of_int n / 2 ^ s" "0 \<le> n" "n < 2 ^ 53" "n < 2 ^ s" "s \<le> 1074"
proof -
  obtain n d where q: "quotient_of r = (n, d)" by (cases "quotient_of r")
  have d: "0 < d" using q by (rule quotient_of_denom_pos)
  from assms q have a: "0 \<le> r" "r < 1" "n < 2 ^ 53" "d dvd 2 ^ 1074"
    by (simp_all add: is_random_def)
  from a(4) d obtain s where s: "s \<le> 1074" "d = 2 ^ s" using dvd_two_power by blast
  have r: "r = rat_of_int n / 2 ^ s" using quotient_of_div [OF q] s(2) by simp
  have "0 \<le> rat_of_int n / 2 ^ s" using a(1) r by simp
  moreover have "(0::rat) < 2 ^ s" by simp
  ultimately have "0 \<le> rat_of_int n" by (simp only: zero_le_divide_iff) auto
  then have n0: "0 \<le> n" by simp
  have "rat_of_int n < 2 ^ s" using a(2) unfolding r by (simp add: field_simps)
  then have "rat_of_int n < rat_of_int (2 ^ s)" by simp
  then have "n < 2 ^ s" by (simp only: of_int_less_iff)
  with r n0 a(3) s(1) show ?thesis using that by blast
qed

lemma is_random_range:
  assumes "is_random r"
  shows "0 \<le> r" "r \<le> 1 - 1 / 2 ^ 53"
proof -
  from assms show "0 \<le> r" by (simp add: is_random_def)
  from assms obtain n s where h: "r = rat_of_int n / 2 ^ s" "0 \<le> n" "n < 2 ^ 53" "n < 2 ^ s"
    by (rule is_random_cases)
  have "n * 2 ^ 53 \<le> (2 ^ 53 - 1) * 2 ^ s"
  proof (cases "s \<le> 53")
    case True
    then have "(2::int) ^ s \<le> 2 ^ 53" by (intro power_increasing) simp_all
    moreover from h(4) have "n * 2 ^ 53 \<le> (2 ^ s - 1) * 2 ^ 53" by simp
    ultimately show ?thesis by (simp add: algebra_simps)
  next
    case False
    then have "(2::int) ^ 53 \<le> 2 ^ s" by (intro power_increasing) simp_all
    then have "n * 2 ^ 53 \<le> n * 2 ^ s" using h(2) by (rule mult_left_mono)
    also have "\<dots> \<le> (2 ^ 53 - 1) * 2 ^ s" using h(3) by (intro mult_right_mono) simp_all
    finally show ?thesis .
  qed
  then have "rat_of_int (n * 2 ^ 53) \<le> rat_of_int ((2 ^ 53 - 1) * 2 ^ s)" by (simp only: of_int_le_iff)
  then have "rat_of_int n * 2 ^ 53 \<le> (2 ^ 53 - 1) * 2 ^ s" by simp
  then show "r \<le> 1 - 1 / 2 ^ 53" unfolding h(1) by (simp add: field_simps)
qed

lemma is_random_product_dyadic:
  assumes "is_random r"
  shows "dyadic (r * (rat_of_nat len / 2))"
proof -
  from assms obtain n s where h: "r = rat_of_int n / 2 ^ s" "0 \<le> n"
    by (rule is_random_cases)
  have "0 \<le> r" using assms by (rule is_random_range(1))
  then have p: "0 \<le> r * (rat_of_nat len / 2)" by simp
  have "r * (rat_of_nat len / 2) * 2 ^ Suc s = rat_of_int (n * int len)"
    unfolding h(1) by simp
  with p show ?thesis by (rule dyadicI)
qed

subsection \<open>The reinsertion index and the transitions\<close>

lemma insertIndex_offset:
  assumes "is_random r"
  shows "insertIndex len r = len div 2 + nat \<lfloor>round_double (r * (rat_of_nat len / 2))\<rfloor>"
    and "int (insertIndex len r) - int (len div 2) = \<lfloor>round_double (r * (rat_of_nat len / 2))\<rfloor>"
proof -
  have h: "\<lfloor>rat_of_nat len / 2\<rfloor> = int (len div 2)"
    using floor_divide_of_nat_eq [of len 2, where ?'a = rat] by simp
  show e: "insertIndex len r = len div 2 + nat \<lfloor>round_double (r * (rat_of_nat len / 2))\<rfloor>"
    unfolding insertIndex_def h by simp
  have "dyadic (r * (rat_of_nat len / 2))" using assms by (rule is_random_product_dyadic)
  then have "0 \<le> round_double (r * (rat_of_nat len / 2))" by (rule round_double_nonneg)
  then have "0 \<le> \<lfloor>round_double (r * (rat_of_nat len / 2))\<rfloor>" by simp
  then show "int (insertIndex len r) - int (len div 2) = \<lfloor>round_double (r * (rat_of_nat len / 2))\<rfloor>"
    unfolding e by simp
qed

lemma insertIndex_lower:
  assumes "is_random r" "len < 2 ^ 32"
  shows "\<lfloor>r * (rat_of_nat len / 2)\<rfloor> \<le> int (insertIndex len r) - int (len div 2)"
proof -
  define x where "x = r * (rat_of_nat len / 2)"
  have d: "dyadic x" unfolding x_def using assms(1) by (rule is_random_product_dyadic)
  have r: "0 \<le> r" "r \<le> 1 - 1 / 2 ^ 53" using assms(1) by (rule is_random_range)+
  have "rat_of_nat len < rat_of_nat (2 ^ 32)" using assms(2) by (simp only: of_nat_less_iff)
  then have l: "rat_of_nat len < 2 ^ 32" by simp
  have "x \<le> 1 * (rat_of_nat len / 2)" unfolding x_def using r by (intro mult_right_mono) simp_all
  with l have "x < 2 ^ 53" by simp
  moreover have "rat_of_int \<lfloor>x\<rfloor> \<le> x" by (rule of_int_floor_le)
  ultimately have "rat_of_int \<lfloor>x\<rfloor> \<le> round_double x" using d by (intro round_double_lower)
  then have "\<lfloor>x\<rfloor> \<le> \<lfloor>round_double x\<rfloor>" by (simp only: le_floor_iff)
  then show ?thesis unfolding insertIndex_offset(2) [OF assms(1)] x_def .
qed

lemma insertIndex_upper:
  assumes "is_random r"
  shows "int (insertIndex len r) - int (len div 2) \<le> \<lfloor>r * (rat_of_nat len / 2) * (1 + 1 / 2 ^ 53)\<rfloor>"
proof -
  define x where "x = r * (rat_of_nat len / 2)"
  have d: "dyadic x" unfolding x_def using assms by (rule is_random_product_dyadic)
  then have x0: "0 \<le> x" by (simp add: dyadic_def)
  from round_double_upper [OF d] have "\<lfloor>round_double x\<rfloor> \<le> \<lfloor>x * (1 + 1 / 2 ^ 53)\<rfloor>"
  proof
    assume "round_double x \<le> x * (1 + 1 / 2 ^ 53)"
    then show ?thesis by (rule floor_mono)
  next
    assume "round_double x < 1"
    then have "\<lfloor>round_double x\<rfloor> \<le> 0" by (simp add: floor_le_iff)
    moreover have "0 \<le> x * (1 + 1 / 2 ^ 53)" using x0 by simp
    then have "0 \<le> \<lfloor>x * (1 + 1 / 2 ^ 53)\<rfloor>" by (simp only: zero_le_floor)
    ultimately show ?thesis by linarith
  qed
  then show ?thesis unfolding insertIndex_offset(2) [OF assms] x_def .
qed

lemma insertIndex_bounds:
  assumes "is_random r" "0 < len"
  shows "len div 2 \<le> insertIndex len r" "insertIndex len r < len"
proof -
  define f where "f = \<lfloor>r * (rat_of_nat len / 2) * (1 + 1 / 2 ^ 53)\<rfloor>"
  have r: "0 \<le> r" "r \<le> 1 - 1 / 2 ^ 53" using assms(1) by (rule is_random_range)+
  have u: "int (insertIndex len r) - int (len div 2) \<le> f"
    unfolding f_def using assms(1) by (rule insertIndex_upper)
  show "len div 2 \<le> insertIndex len r" by (simp add: insertIndex_offset(1) [OF assms(1)])
  have "rat_of_int f \<le> r * (rat_of_nat len / 2) * (1 + 1 / 2 ^ 53)"
    unfolding f_def by (rule of_int_floor_le)
  also have "\<dots> = r * (1 + 1 / 2 ^ 53) * (rat_of_nat len / 2)" by simp
  also have "\<dots> \<le> (1 - 1 / 2 ^ 53) * (1 + 1 / 2 ^ 53) * (rat_of_nat len / 2)"
    using r(2) by (intro mult_right_mono) simp_all
  also have "\<dots> < 1 * (rat_of_nat len / 2)"
    using assms(2) by (intro mult_strict_right_mono) simp_all
  finally have "2 * rat_of_int f < rat_of_nat len" by simp
  then have "rat_of_int (2 * f) < rat_of_int (int len)" by simp
  then have "2 * f < int len" by (simp only: of_int_less_iff)
  with u show "insertIndex len r < len" by linarith
qed

lemma insertIndex_zero_len:
  assumes "is_random r"
  shows "insertIndex 0 r = 0"
proof -
  have "int (insertIndex 0 r) - int (0 div 2) \<le> \<lfloor>r * (rat_of_nat 0 / 2) * (1 + 1 / 2 ^ 53)\<rfloor>"
    using assms by (rule insertIndex_upper)
  then show ?thesis by simp
qed

lemma insertIndex_nonzero:
  assumes "is_random r" "2 \<le> len"
  shows "insertIndex len r \<noteq> 0"
proof -
  from assms have "len div 2 \<le> insertIndex len r" by (intro insertIndex_bounds) simp_all
  moreover have "1 \<le> len div 2" using assms(2) by linarith
  ultimately show ?thesis by linarith
qed

lemma insertIndex_interval:
  assumes "is_random r" "len < 2 ^ 32"
  shows "2 * rat_of_nat j \<le> r * rat_of_nat len \<Longrightarrow> r * rat_of_nat len * (1 + 1 / 2 ^ 53) < 2 * (rat_of_nat j + 1)
           \<Longrightarrow> insertIndex len r = len div 2 + j"
    and "insertIndex len r = len div 2 + j
           \<Longrightarrow> 2 * rat_of_nat j \<le> r * rat_of_nat len * (1 + 1 / 2 ^ 53) \<and> r * rat_of_nat len < 2 * (rat_of_nat j + 1)"
proof -
  define x where "x = r * (rat_of_nat len / 2)"
  define off where "off = int (insertIndex len r) - int (len div 2)"
  have lo: "\<lfloor>x\<rfloor> \<le> off" unfolding x_def off_def using assms by (rule insertIndex_lower)
  have up: "off \<le> \<lfloor>x * (1 + 1 / 2 ^ 53)\<rfloor>" unfolding x_def off_def using assms(1) by (rule insertIndex_upper)
  have ge: "len div 2 \<le> insertIndex len r" by (simp add: insertIndex_offset(1) [OF assms(1)])
  {
    assume a: "2 * rat_of_nat j \<le> r * rat_of_nat len"
       and b: "r * rat_of_nat len * (1 + 1 / 2 ^ 53) < 2 * (rat_of_nat j + 1)"
    from a have "rat_of_int (int j) \<le> x" unfolding x_def by simp
    then have "int j \<le> \<lfloor>x\<rfloor>" by (simp only: le_floor_iff)
    moreover from b have "x * (1 + 1 / 2 ^ 53) < rat_of_int (int j + 1)" unfolding x_def by simp
    then have "\<lfloor>x * (1 + 1 / 2 ^ 53)\<rfloor> < int j + 1" by (simp only: floor_less_iff)
    ultimately have "off = int j" using lo up by linarith
    then show "insertIndex len r = len div 2 + j" unfolding off_def using ge by linarith
  }
  {
    assume e: "insertIndex len r = len div 2 + j"
    then have o: "off = int j" unfolding off_def by simp
    from up o have "rat_of_int (int j) \<le> x * (1 + 1 / 2 ^ 53)" by (simp only: le_floor_iff)
    then have 1: "2 * rat_of_nat j \<le> r * rat_of_nat len * (1 + 1 / 2 ^ 53)" unfolding x_def by simp
    from lo o have "\<lfloor>x\<rfloor> < int j + 1" by simp
    then have "x < rat_of_int (int j + 1)" by (simp only: floor_less_iff)
    then have 2: "r * rat_of_nat len < 2 * (rat_of_nat j + 1)" unfolding x_def by simp
    from 1 2 show "2 * rat_of_nat j \<le> r * rat_of_nat len * (1 + 1 / 2 ^ 53) \<and> r * rat_of_nat len < 2 * (rat_of_nat j + 1)" ..
  }
qed

lemma insertIndex_last:
  assumes "is_random r" "len < 2 ^ 32" "0 < len"
  shows "even len \<Longrightarrow> rat_of_nat len - 2 \<le> r * rat_of_nat len \<Longrightarrow> insertIndex len r = len - 1"
    and "odd len \<Longrightarrow> rat_of_nat len - 1 \<le> r * rat_of_nat len \<Longrightarrow> insertIndex len r = len - 1"
    and "odd len \<Longrightarrow> insertIndex len r = len - 1 \<Longrightarrow> rat_of_nat len - 1 \<le> r * rat_of_nat len * (1 + 1 / 2 ^ 53)"
    and "even len \<Longrightarrow> insertIndex len r = len - 1 \<Longrightarrow> rat_of_nat len - 2 \<le> r * rat_of_nat len * (1 + 1 / 2 ^ 53)"
proof -
  define x where "x = r * (rat_of_nat len / 2)"
  define off where "off = int (insertIndex len r) - int (len div 2)"
  have lo: "\<lfloor>x\<rfloor> \<le> off" unfolding x_def off_def using assms(1,2) by (rule insertIndex_lower)
  have up: "off \<le> \<lfloor>x * (1 + 1 / 2 ^ 53)\<rfloor>" unfolding x_def off_def using assms(1) by (rule insertIndex_upper)
  have lt: "insertIndex len r < len" using assms(1,3) by (rule insertIndex_bounds(2))
  {
    assume e: "even len" and a: "rat_of_nat len - 2 \<le> r * rat_of_nat len"
    from e obtain h where h: "len = 2 * h" by (auto elim: evenE)
    from a have "rat_of_int (int h - 1) \<le> x" unfolding x_def h by simp
    then have "int h - 1 \<le> \<lfloor>x\<rfloor>" by (simp only: le_floor_iff)
    with lo have "int h - 1 \<le> off" by linarith
    then show "insertIndex len r = len - 1" using lt unfolding off_def h by simp
  }
  {
    assume e: "odd len" and a: "rat_of_nat len - 1 \<le> r * rat_of_nat len"
    from e obtain h where h: "len = 2 * h + 1" by (auto elim: oddE)
    from a have "rat_of_int (int h) \<le> x" unfolding x_def h by simp
    then have "int h \<le> \<lfloor>x\<rfloor>" by (simp only: le_floor_iff)
    with lo have "int h \<le> off" by linarith
    then show "insertIndex len r = len - 1" using lt unfolding off_def h by simp
  }
  {
    assume e: "odd len" and a: "insertIndex len r = len - 1"
    from e obtain h where h: "len = 2 * h + 1" by (auto elim: oddE)
    from a have "off = int h" unfolding off_def h by simp
    with up have "rat_of_int (int h) \<le> x * (1 + 1 / 2 ^ 53)" by (simp only: le_floor_iff)
    then show "rat_of_nat len - 1 \<le> r * rat_of_nat len * (1 + 1 / 2 ^ 53)" unfolding x_def h by simp
  }
  {
    assume e: "even len" and a: "insertIndex len r = len - 1"
    from e obtain h where h: "len = 2 * h" by (auto elim: evenE)
    from a assms(3) have "off = int h - 1" unfolding off_def h by simp
    with up have "rat_of_int (int h - 1) \<le> x * (1 + 1 / 2 ^ 53)" by (simp only: le_floor_iff)
    then show "rat_of_nat len - 2 \<le> r * rat_of_nat len * (1 + 1 / 2 ^ 53)" unfolding x_def h by simp
  }
qed

lemma is_random_three_quarters: "is_random (3 / 4)"
  by code_simp

lemma handleAnswer_Some_iff:
  "(\<exists>s'. handleAnswer k r s = Some s') \<longleftrightarrow> currentIndex s < length (cardsToTest s)"
proof (cases "currentIndex s < length (cardsToTest s)")
  case True
  then show ?thesis by (simp add: handleAnswer_def splice_remove_Some Let_def)
next
  case False
  then have "fst (splice_remove (currentIndex s) (cardsToTest s)) = []"
    by (simp add: splice_remove_None)
  then have "handleAnswer k r s = None"
    by (cases "splice_remove (currentIndex s) (cardsToTest s)") (simp add: handleAnswer_def)
  with False show ?thesis by simp
qed

lemma handleAnswer_index:
  assumes "handleAnswer k r s = Some s'"
  shows "currentIndex s' = (if length (cardsToTest s') \<le> currentIndex s then 0 else currentIndex s)"
proof -
  from assms have "currentIndex s < length (cardsToTest s)" using handleAnswer_Some_iff by blast
  with assms show ?thesis
    by (auto simp: handleAnswer_def splice_remove_Some Let_def split: if_splits)
qed

lemma handleAnswer_index_valid:
  assumes "handleAnswer k r s = Some s'" "cardsToTest s' \<noteq> []"
  shows "currentIndex s' < length (cardsToTest s')"
  using handleAnswer_index [OF assms(1)] assms(2) by (simp split: if_splits)

lemma reachable_index0: "reachable deck s \<Longrightarrow> currentIndex s = 0"
proof (induction rule: reachable.induct)
  case (start rnd)
  show ?case by (simp add: startTest_def)
next
  case (reveal s)
  then show ?case by simp
next
  case (answer s r knewIt s')
  then show ?case using handleAnswer_index [of knewIt r s s'] by (simp split: if_splits)
next
  case (leave s)
  then show ?case by simp
qed

lemma handleAnswer_needsReview:
  assumes "handleAnswer False r s = Some s'"
  shows "cardsToTest s' =
           splice_insert (insertIndex (length (cardsToTest s) - 1) r) (cardsToTest s ! currentIndex s)
             (take (currentIndex s) (cardsToTest s) @ drop (Suc (currentIndex s)) (cardsToTest s))"
    and "masteredCards s' = masteredCards s"
proof -
  from assms have i: "currentIndex s < length (cardsToTest s)" using handleAnswer_Some_iff by blast
  then have l: "min (length (cardsToTest s)) (currentIndex s) + (length (cardsToTest s) - Suc (currentIndex s)) = length (cardsToTest s) - 1"
    by simp
  from assms i show "cardsToTest s' =
           splice_insert (insertIndex (length (cardsToTest s) - 1) r) (cardsToTest s ! currentIndex s)
             (take (currentIndex s) (cardsToTest s) @ drop (Suc (currentIndex s)) (cardsToTest s))"
    by (auto simp: handleAnswer_def splice_remove_Some Let_def l split: if_splits)
  from assms i show "masteredCards s' = masteredCards s"
    by (auto simp: handleAnswer_def splice_remove_Some Let_def split: if_splits)
qed

lemma splice_insert_nth: "i \<le> length xs \<Longrightarrow> splice_insert i x xs ! i = x"
  by (simp add: splice_insert_def nth_append)

subsection \<open>The claims about the flashcard test\<close>

text \<open>
  Claim C1. Starting a test sets \<open>cardsToTest\<close> to a permutation of the full deck (of the
  same length), with \<open>masteredCards\<close> empty and \<open>currentIndex\<close> 0; and in every state
  reached by any sequence of clicks ("Show Answer", "I Knew It!", "Needs Review", "Back to
  Flashcards", a new test), the multiset union of
  \<open>cardsToTest\<close> and \<open>masteredCards\<close> is the deck, their lengths add up to the deck's,
  and when the deck has no repeated card no card occurs twice.
\<close>

theorem flashcard_partition_invariant:
  "mset (cardsToTest (startTest rnd deck)) = mset deck \<and>
   length (cardsToTest (startTest rnd deck)) = length deck \<and>
   masteredCards (startTest rnd deck) = [] \<and>
   currentIndex (startTest rnd deck) = 0 \<and>
   (reachable deck s \<longrightarrow>
      mset (cardsToTest s) + mset (masteredCards s) = mset deck \<and>
      length (cardsToTest s) + length (masteredCards s) = length deck \<and>
      (distinct deck \<longrightarrow> distinct (cardsToTest s @ masteredCards s)))"
proof -
  have p: "mset (cardsToTest (startTest rnd deck)) = mset deck"
    by (simp add: startTest_def sort_cmp_mset)
  then have l: "length (cardsToTest (startTest rnd deck)) = length deck"
    by (rule mset_eq_length)
  have r: "mset (cardsToTest s) + mset (masteredCards s) = mset deck \<and>
      length (cardsToTest s) + length (masteredCards s) = length deck \<and>
      (distinct deck \<longrightarrow> distinct (cardsToTest s @ masteredCards s))" if "reachable deck s"
  proof -
    from that have m: "mset (cardsToTest s @ masteredCards s) = mset deck"
      by (simp add: reachable_mset)
    then have "length (cardsToTest s @ masteredCards s) = length deck" by (rule mset_eq_length)
    moreover have "distinct (cardsToTest s @ masteredCards s) = distinct deck"
      using m by (rule mset_eq_imp_distinct_iff)
    ultimately show ?thesis using m by simp
  qed
  show ?thesis using p l r by (simp add: startTest_def)
qed

text \<open>
  The invariant at a state reached from the example deck: the sort with the draws
  1/4, 3/4, 1/4 puts the second card first, and "Show Answer" and "I Knew It!" move it to
  the mastered cards.
\<close>

theorem flashcard_partition_invariant_witness:
  "reachable exampleDeck
     \<lparr>active = True, cardsToTest = [exampleDeck ! 0, exampleDeck ! 2],
      masteredCards = [exampleDeck ! 1], currentIndex = 0, showAnswer = False\<rparr> \<and>
   distinct exampleDeck \<and>
   mset [exampleDeck ! 0, exampleDeck ! 2] + mset [exampleDeck ! 1] = mset exampleDeck \<and>
   length [exampleDeck ! 0, exampleDeck ! 2] + length [exampleDeck ! 1] = length exampleDeck \<and>
   distinct ([exampleDeck ! 0, exampleDeck ! 2] @ [exampleDeck ! 1])"
proof -
  define rnd :: "nat \<Rightarrow> rat" where "rnd = (\<lambda>n. if n = 1 then 3 / 4 else 1 / 4)"
  define s :: "Flashcard testState" where
    "s = \<lparr>active = True, cardsToTest = [exampleDeck ! 0, exampleDeck ! 2],
          masteredCards = [exampleDeck ! 1], currentIndex = 0, showAnswer = False\<rparr>"
  have a: "reachable exampleDeck ((startTest rnd exampleDeck)\<lparr>showAnswer := True\<rparr>)"
    by (rule reachable.reveal) (rule reachable.start)
  have b: "handleAnswer True (3 / 4) ((startTest rnd exampleDeck)\<lparr>showAnswer := True\<rparr>) = Some s"
    unfolding rnd_def s_def by code_simp
  have c: "reachable exampleDeck s"
    by (rule reachable.answer [OF a _ _ _ b]) simp_all
  have d: "distinct exampleDeck" by (simp add: exampleDeck_def)
  from flashcard_partition_invariant [of rnd exampleDeck s] c d
  show ?thesis unfolding s_def by simp
qed

text \<open>
  Claim C3 as stated fails in two places. With three cards remaining, the index is
  \<open>1 + \<lfloor>r * 1.5\<rfloor>\<close>: index 1 for the draws \<open>r < 2/3\<close> and index 2 only from \<open>2/3\<close> on,
  so the choice among \<open>{1, 2}\<close> is not uniform (of the eight draws
  \<open>0/8, ..., 7/8\<close> six choose index 1 and two choose index 2). With no card remaining
  the range \<open>[len/2, len)\<close> is empty and the card is put back at index 0.
\<close>

theorem needsReview_uniform_counterexample:
  "draws_selecting 3 8 1 = 6 \<and> draws_selecting 3 8 2 = 2 \<and> insertIndex 0 (1 / 2) = 0"
  by code_simp

text \<open>
  Claim C3, amended. "Needs Review" removes the card at \<open>currentIndex\<close> from
  \<open>cardsToTest\<close>, leaving \<open>len\<close> cards, and puts it back at the index
  \<open>idx = \<lfloor>len/2\<rfloor> + \<lfloor>r \<otimes> len/2\<rfloor>\<close>, where \<open>r\<close> is the double that \<^verbatim>\<open>Math.random()\<close>
  returned and \<open>\<otimes>\<close> is the multiplication of doubles (the product, rounded); the mastered
  cards do not change. The offset \<open>idx - \<lfloor>len/2\<rfloor>\<close> lies between \<open>\<lfloor>r * len/2\<rfloor>\<close> and
  \<open>\<lfloor>r * len/2 * (1 + 2^-53)\<rfloor>\<close>. So the index \<open>\<lfloor>len/2\<rfloor> + j\<close> is chosen by every draw with
  \<open>2j/len \<le> r\<close> and \<open>r * (1 + 2^-53) < 2(j+1)/len\<close>, and only by draws with
  \<open>2j/len \<le> r * (1 + 2^-53)\<close> and \<open>r < 2(j+1)/len\<close>: up to the rounding, by the draws of
  the interval \<open>[2j/len, 2(j+1)/len)\<close>. The last index \<open>len - 1\<close> is chosen by every draw
  from \<open>(len-2)/len\<close> on when \<open>len\<close> is even, an interval as long as the others, and by
  every draw from \<open>(len-1)/len\<close> on when \<open>len\<close> is odd, an interval half as long as the
  others (and by no draw with \<open>r * (1 + 2^-53)\<close> below that bound). When \<open>len > 0\<close> the
  index lies in \<open>[len div 2, len)\<close>, whatever the draw; when \<open>len \<ge> 2\<close> it is never 0;
  when \<open>len = 0\<close> it is 0.
\<close>

theorem needsReview_reinsertion:
  assumes "is_random r" and "handleAnswer False r s = Some s'" and "length (cardsToTest s) < 2 ^ 32"
  shows "let i = currentIndex s; xs = cardsToTest s;
             rest = take i xs @ drop (Suc i) xs; len = length rest;
             idx = insertIndex len r
         in cardsToTest s' = take idx rest @ xs ! i # drop idx rest \<and>
            masteredCards s' = masteredCards s \<and>
            len = length xs - 1 \<and>
            cardsToTest s' ! idx = xs ! i \<and>
            idx = len div 2 + nat \<lfloor>round_double (r * (rat_of_nat len / 2))\<rfloor> \<and>
            \<lfloor>r * (rat_of_nat len / 2)\<rfloor> \<le> int idx - int (len div 2) \<and>
            int idx - int (len div 2) \<le> \<lfloor>r * (rat_of_nat len / 2) * (1 + 1 / 2 ^ 53)\<rfloor> \<and>
            (2 * rat_of_nat j \<le> r * rat_of_nat len \<and>
             r * rat_of_nat len * (1 + 1 / 2 ^ 53) < 2 * (rat_of_nat j + 1) \<longrightarrow> idx = len div 2 + j) \<and>
            (idx = len div 2 + j \<longrightarrow>
               2 * rat_of_nat j \<le> r * rat_of_nat len * (1 + 1 / 2 ^ 53) \<and>
               r * rat_of_nat len < 2 * (rat_of_nat j + 1)) \<and>
            (even len \<and> 0 < len \<longrightarrow>
               (rat_of_nat len - 2 \<le> r * rat_of_nat len \<longrightarrow> idx = len - 1) \<and>
               (idx = len - 1 \<longrightarrow> rat_of_nat len - 2 \<le> r * rat_of_nat len * (1 + 1 / 2 ^ 53))) \<and>
            (odd len \<longrightarrow>
               (rat_of_nat len - 1 \<le> r * rat_of_nat len \<longrightarrow> idx = len - 1) \<and>
               (idx = len - 1 \<longrightarrow> rat_of_nat len - 1 \<le> r * rat_of_nat len * (1 + 1 / 2 ^ 53))) \<and>
            (0 < len \<longrightarrow> len div 2 \<le> idx \<and> idx < len) \<and>
            (2 \<le> len \<longrightarrow> idx \<noteq> 0) \<and>
            (len = 0 \<longrightarrow> idx = 0)"
proof -
  define i where "i = currentIndex s"
  define xs where "xs = cardsToTest s"
  define rest where "rest = take i xs @ drop (Suc i) xs"
  define len where "len = length rest"
  define idx where "idx = insertIndex len r"
  from assms(2) have v: "i < length xs" unfolding i_def xs_def using handleAnswer_Some_iff by blast
  have l: "len = length xs - 1" unfolding len_def rest_def using v by simp
  have b32: "len < 2 ^ 32" using assms(3) unfolding l xs_def by simp
  have c: "cardsToTest s' = splice_insert idx (xs ! i) rest"
    using handleAnswer_needsReview(1) [OF assms(2)] unfolding idx_def l rest_def i_def xs_def .
  have b: "0 < len \<longrightarrow> len div 2 \<le> idx \<and> idx < len"
    unfolding idx_def using insertIndex_bounds [OF assms(1)] by blast
  have z: "len = 0 \<longrightarrow> idx = 0" unfolding idx_def using insertIndex_zero_len [OF assms(1)] by blast
  have n: "2 \<le> len \<longrightarrow> idx \<noteq> 0" unfolding idx_def using insertIndex_nonzero [OF assms(1)] by blast
  have le: "idx \<le> length rest" using b z unfolding len_def by (cases "len = 0") (auto simp: len_def)
  have nth: "cardsToTest s' ! idx = xs ! i" unfolding c using le by (rule splice_insert_nth)
  have m: "masteredCards s' = masteredCards s" using assms(2) by (rule handleAnswer_needsReview(2))
  have f: "idx = len div 2 + nat \<lfloor>round_double (r * (rat_of_nat len / 2))\<rfloor>"
    unfolding idx_def using assms(1) by (rule insertIndex_offset(1))
  have lo: "\<lfloor>r * (rat_of_nat len / 2)\<rfloor> \<le> int idx - int (len div 2)"
    unfolding idx_def using assms(1) b32 by (rule insertIndex_lower)
  have up: "int idx - int (len div 2) \<le> \<lfloor>r * (rat_of_nat len / 2) * (1 + 1 / 2 ^ 53)\<rfloor>"
    unfolding idx_def using assms(1) by (rule insertIndex_upper)
  have i1: "2 * rat_of_nat j \<le> r * rat_of_nat len \<and>
             r * rat_of_nat len * (1 + 1 / 2 ^ 53) < 2 * (rat_of_nat j + 1) \<longrightarrow> idx = len div 2 + j"
    unfolding idx_def using insertIndex_interval(1) [OF assms(1) b32] by blast
  have i2: "idx = len div 2 + j \<longrightarrow>
               2 * rat_of_nat j \<le> r * rat_of_nat len * (1 + 1 / 2 ^ 53) \<and>
               r * rat_of_nat len < 2 * (rat_of_nat j + 1)"
    unfolding idx_def using insertIndex_interval(2) [OF assms(1) b32] by blast
  have ev: "even len \<and> 0 < len \<longrightarrow>
               (rat_of_nat len - 2 \<le> r * rat_of_nat len \<longrightarrow> idx = len - 1) \<and>
               (idx = len - 1 \<longrightarrow> rat_of_nat len - 2 \<le> r * rat_of_nat len * (1 + 1 / 2 ^ 53))"
    unfolding idx_def using insertIndex_last(1,4) [OF assms(1) b32] by blast
  have od: "odd len \<longrightarrow>
               (rat_of_nat len - 1 \<le> r * rat_of_nat len \<longrightarrow> idx = len - 1) \<and>
               (idx = len - 1 \<longrightarrow> rat_of_nat len - 1 \<le> r * rat_of_nat len * (1 + 1 / 2 ^ 53))"
  proof
    assume o: "odd len"
    then have "0 < len" by (cases len) simp_all
    with o show "(rat_of_nat len - 1 \<le> r * rat_of_nat len \<longrightarrow> idx = len - 1) \<and>
               (idx = len - 1 \<longrightarrow> rat_of_nat len - 1 \<le> r * rat_of_nat len * (1 + 1 / 2 ^ 53))"
      unfolding idx_def using insertIndex_last(2,3) [OF assms(1) b32] by blast
  qed
  have c': "cardsToTest s' = take idx rest @ xs ! i # drop idx rest"
    using c unfolding splice_insert_def .
  note all = conjI [OF c' conjI [OF m conjI [OF l conjI [OF nth conjI [OF f conjI [OF lo
    conjI [OF up conjI [OF i1 conjI [OF i2 conjI [OF ev conjI [OF od conjI [OF b conjI [OF n z]]]]]]]]]]]]]
  show ?thesis
    unfolding Let_def using all unfolding idx_def len_def rest_def xs_def i_def .
qed

text \<open>
  Four cards, the first marked "Needs Review" with the draw 3/4: three cards remain and the
  card goes back at index \<open>1 + \<lfloor>9/8\<rfloor> = 2\<close>, the last one, as for every draw from
  \<open>2/3\<close> on (\<open>j = 1\<close>).
\<close>

theorem needsReview_reinsertion_witness:
  "is_random (3 / 4) \<and>
   handleAnswer False (3 / 4)
     \<lparr>active = True, cardsToTest = [1 :: nat, 2, 3, 4], masteredCards = [], currentIndex = 0, showAnswer = True\<rparr>
   = Some \<lparr>active = True, cardsToTest = [2, 3, 1, 4], masteredCards = [], currentIndex = 0, showAnswer = False\<rparr> \<and>
   length [1 :: nat, 2, 3, 4] < 2 ^ 32 \<and>
   2 * rat_of_nat 1 \<le> 3 / 4 * rat_of_nat 3 \<and>
   3 / 4 * rat_of_nat 3 * (1 + 1 / 2 ^ 53) < 2 * (rat_of_nat 1 + 1) \<and>
   insertIndex 3 (3 / 4) = 3 div 2 + 1 \<and> [2, 3, 1, 4 :: nat] ! (3 div 2 + 1) = 1"
proof -
  define s :: "nat testState" where
    "s = \<lparr>active = True, cardsToTest = [1, 2, 3, 4], masteredCards = [], currentIndex = 0, showAnswer = True\<rparr>"
  define s' :: "nat testState" where
    "s' = \<lparr>active = True, cardsToTest = [2, 3, 1, 4], masteredCards = [], currentIndex = 0, showAnswer = False\<rparr>"
  have h: "handleAnswer False (3 / 4) s = Some s'" unfolding s_def s'_def by code_simp
  have b: "length (cardsToTest s) < 2 ^ 32" unfolding s_def by simp
  have len: "length (take (currentIndex s) (cardsToTest s) @ drop (Suc (currentIndex s)) (cardsToTest s)) = 3"
    unfolding s_def by simp
  have j: "2 * rat_of_nat 1 \<le> 3 / 4 * rat_of_nat 3"
    "3 / 4 * rat_of_nat 3 * (1 + 1 / 2 ^ 53) < 2 * (rat_of_nat 1 + 1)" by simp_all
  note t = needsReview_reinsertion [OF is_random_three_quarters h b, of 1, unfolded Let_def len]
  from t j have i: "insertIndex 3 (3 / 4) = 3 div 2 + 1" by blast
  from t have "cardsToTest s' ! insertIndex 3 (3 / 4) = cardsToTest s ! currentIndex s" by blast
  then have "cardsToTest s' ! (3 div 2 + 1) = cardsToTest s ! currentIndex s" unfolding i .
  then show ?thesis using h i j is_random_three_quarters unfolding s_def s'_def by simp
qed

text \<open>
  The rounding of the product is visible in the index. With seven cards remaining and the
  draw \<open>2573485501354569 / 2^52\<close> the product \<open>r * 3.5\<close> is below 2 and its double is 2:
  the index is 5, not 4. With three cards remaining and the draw
  \<open>6004799503160661 / 2^53\<close> (the double below 2/3) the double of \<open>r * 1.5\<close> is 1: the
  index is 2, not 1. With four cards remaining the product \<open>r * 2\<close> is exact, and the
  eight draws \<open>0/8, ..., 7/8\<close> divide equally between the indices 2 and 3.
\<close>

lemma insertIndex_rounding_examples:
  "is_random (2573485501354569 / 2 ^ 52) \<and> insertIndex 7 (2573485501354569 / 2 ^ 52) = 5 \<and>
   \<lfloor>2573485501354569 / 2 ^ 52 * (7 / 2 :: rat)\<rfloor> = 1 \<and>
   is_random (6004799503160661 / 2 ^ 53) \<and> insertIndex 3 (6004799503160661 / 2 ^ 53) = 2 \<and>
   \<lfloor>6004799503160661 / 2 ^ 53 * (3 / 2 :: rat)\<rfloor> = 0 \<and>
   draws_selecting 4 8 2 = 4 \<and> draws_selecting 4 8 3 = 4"
  by code_simp

text \<open>
  Claim C10. After every "I Knew It!" or "Needs Review" transition \<open>currentIndex\<close> is
  reset to 0 exactly when the old index equals or exceeds the new length of
  \<open>cardsToTest\<close>, so whenever cards remain the index is below that length. In every
  reachable state with cards remaining the index is valid, the view renders the card at
  that index (it does not throw), and both answer buttons have a next state.
\<close>

theorem currentIndex_in_bounds:
  "(handleAnswer knewIt r s = Some s' \<longrightarrow>
      currentIndex s' = (if length (cardsToTest s') \<le> currentIndex s then 0 else currentIndex s) \<and>
      (cardsToTest s' \<noteq> [] \<longrightarrow> currentIndex s' < length (cardsToTest s'))) \<and>
   (reachable deck t \<longrightarrow> cardsToTest t \<noteq> [] \<longrightarrow>
      currentIndex t < length (cardsToTest t) \<and>
      FlashcardTestView t = Inr (TestCard (cardsToTest t ! currentIndex t) (showAnswer t)) \<and>
      (\<exists>t'. handleAnswer knewIt r t = Some t'))"
proof -
  have a: "currentIndex s' = (if length (cardsToTest s') \<le> currentIndex s then 0 else currentIndex s) \<and>
      (cardsToTest s' \<noteq> [] \<longrightarrow> currentIndex s' < length (cardsToTest s'))"
    if "handleAnswer knewIt r s = Some s'"
    using handleAnswer_index [OF that] handleAnswer_index_valid [OF that] by blast
  have b: "currentIndex t < length (cardsToTest t) \<and>
      FlashcardTestView t = Inr (TestCard (cardsToTest t ! currentIndex t) (showAnswer t)) \<and>
      (\<exists>t'. handleAnswer knewIt r t = Some t')"
    if "reachable deck t" "cardsToTest t \<noteq> []"
  proof -
    from that(2) have i: "currentIndex t < length (cardsToTest t)"
      by (simp add: reachable_index0 [OF that(1)])
    then have "FlashcardTestView t = Inr (TestCard (cardsToTest t ! currentIndex t) (showAnswer t))"
      using that(2) by (simp add: FlashcardTestView_def)
    moreover from i have "\<exists>t'. handleAnswer knewIt r t = Some t'" using handleAnswer_Some_iff by blast
    ultimately show ?thesis using i by blast
  qed
  show ?thesis using a b by blast
qed

text \<open>
  The reset at equality: with two cards and index 1, "I Knew It!" leaves one card and the
  index, equal to the new length, goes back to 0. And the reachable state used above
  renders its first card.
\<close>

theorem currentIndex_in_bounds_witness:
  "handleAnswer True 0
     \<lparr>active = True, cardsToTest = [7 :: nat, 8], masteredCards = [], currentIndex = 1, showAnswer = True\<rparr>
   = Some \<lparr>active = True, cardsToTest = [7], masteredCards = [8], currentIndex = 0, showAnswer = False\<rparr> \<and>
   reachable [1, 2, 3 :: nat]
     \<lparr>active = True, cardsToTest = [1, 3], masteredCards = [2], currentIndex = 0, showAnswer = False\<rparr> \<and>
   FlashcardTestView
     \<lparr>active = True, cardsToTest = [1, 3 :: nat], masteredCards = [2], currentIndex = 0, showAnswer = False\<rparr>
   = Inr (TestCard 1 False) \<and>
   (\<exists>t'. handleAnswer True 0
     \<lparr>active = True, cardsToTest = [1, 3 :: nat], masteredCards = [2], currentIndex = 0, showAnswer = False\<rparr> = Some t')"
proof -
  define rnd :: "nat \<Rightarrow> rat" where "rnd = (\<lambda>n. if n = 1 then 3 / 4 else 1 / 4)"
  define u :: "nat testState" where
    "u = \<lparr>active = True, cardsToTest = [7, 8], masteredCards = [], currentIndex = 1, showAnswer = True\<rparr>"
  define u' :: "nat testState" where
    "u' = \<lparr>active = True, cardsToTest = [7], masteredCards = [8], currentIndex = 0, showAnswer = False\<rparr>"
  define t :: "nat testState" where
    "t = \<lparr>active = True, cardsToTest = [1, 3], masteredCards = [2], currentIndex = 0, showAnswer = False\<rparr>"
  have h: "handleAnswer True 0 u = Some u'" unfolding u_def u'_def by code_simp
  have a: "reachable [1, 2, 3 :: nat] ((startTest rnd [1, 2, 3])\<lparr>showAnswer := True\<rparr>)"
    by (rule reachable.reveal) (rule reachable.start)
  have b: "handleAnswer True (3 / 4) ((startTest rnd [1, 2, 3 :: nat])\<lparr>showAnswer := True\<rparr>) = Some t"
    unfolding rnd_def t_def by code_simp
  have c: "reachable [1, 2, 3 :: nat] t"
    by (rule reachable.answer [OF a _ _ _ b]) simp_all
  have n: "cardsToTest t \<noteq> []" unfolding t_def by simp
  from currentIndex_in_bounds [of True 0 u u' "[1, 2, 3 :: nat]" t] h c n
  have "FlashcardTestView t = Inr (TestCard (cardsToTest t ! currentIndex t) (showAnswer t)) \<and>
      (\<exists>t'. handleAnswer True 0 t = Some t')" by blast
  then show ?thesis using h c unfolding u_def u'_def t_def by simp
qed

section \<open>Topic selection (TopicSelectionStep)\<close>

text \<open>
  \<^verbatim>\<open>type TopicSelection = { unit: string | null; topics: string[]; }\<close>
\<close>

record TopicSelection =
  unit :: "string option"
  topics :: "string list"

text \<open>
  \<^verbatim>\<open>useState<TopicSelection>({ unit: null, topics: [] })\<close>; resetFlow sets the same value.
\<close>

definition initialSelection :: TopicSelection where
  "initialSelection = \<lparr>unit = None, topics = []\<rparr>"

text \<open>
  The handlers call \<^verbatim>\<open>setSelection\<close> with a new object, or return without calling it;
  the model returns the selection that is current afterwards.
\<close>

definition handleUnitSelect :: "string \<Rightarrow> TopicSelection \<Rightarrow> TopicSelection" where
  "handleUnitSelect unitName selection =
     (if unit selection = Some unitName
      then \<lparr>unit = None, topics = []\<rparr>
      else \<lparr>unit = Some unitName, topics = []\<rparr>)"

definition handleTopicSelect :: "string \<Rightarrow> TopicSelection \<Rightarrow> TopicSelection" where
  "handleTopicSelect topicName selection =
     (let newTopics =
            (if topicName \<in> set (topics selection)
             then filter (\<lambda>t. t \<noteq> topicName) (topics selection)
             else topics selection @ [topicName])
      in if length newTopics > 3 then selection
         else \<lparr>unit = None, topics = newTopics\<rparr>)"

text \<open>
  The selections the step can hold: the initial one, then any clicks on unit and topic
  checkboxes.
\<close>

inductive selectable :: "TopicSelection \<Rightarrow> bool" where
  initial: "selectable initialSelection"
| unit_click: "selectable s \<Longrightarrow> selectable (handleUnitSelect u s)"
| topic_click: "selectable s \<Longrightarrow> selectable (handleTopicSelect t s)"

subsection \<open>Properties of the topic selection\<close>

lemma handleTopicSelect_length:
  "length (topics s) \<le> 3 \<Longrightarrow> length (topics (handleTopicSelect t s)) \<le> 3"
  by (simp add: handleTopicSelect_def Let_def)

lemma handleTopicSelect_exclusive:
  "unit s = None \<or> topics s = [] \<Longrightarrow>
   unit (handleTopicSelect t s) = None"
  by (auto simp: handleTopicSelect_def Let_def)

lemma selectable_invariant:
  "selectable s \<Longrightarrow> length (topics s) \<le> 3 \<and> (unit s = None \<or> topics s = [])"
proof (induction rule: selectable.induct)
  case initial
  show ?case by (simp add: initialSelection_def)
next
  case (unit_click s u)
  show ?case by (simp add: handleUnitSelect_def)
next
  case (topic_click s t)
  then show ?case
    using handleTopicSelect_length [of s t] handleTopicSelect_exclusive [of s t] by simp
qed

text \<open>
  Claim C7. Clicking a unit always leaves the topics empty. Clicking a topic either leaves
  the selection as it was (the click is rejected) or leaves the unit absent; a click on a
  fourth topic when three are selected is rejected; and in every selection the step can
  reach, at most three topics are selected, a unit and topics are never selected together,
  and a click on any topic leaves the unit absent.
\<close>

theorem topic_selection_invariant:
  "topics (handleUnitSelect u s) = [] \<and>
   (handleTopicSelect t s \<noteq> s \<longrightarrow> unit (handleTopicSelect t s) = None) \<and>
   (length (topics s) = 3 \<longrightarrow> t \<notin> set (topics s) \<longrightarrow> handleTopicSelect t s = s) \<and>
   (selectable s \<longrightarrow>
      length (topics s) \<le> 3 \<and> (unit s = None \<or> topics s = []) \<and>
      unit (handleTopicSelect t s) = None)"
proof -
  have a: "topics (handleUnitSelect u s) = []" by (simp add: handleUnitSelect_def)
  have b: "handleTopicSelect t s \<noteq> s \<longrightarrow> unit (handleTopicSelect t s) = None"
    by (simp add: handleTopicSelect_def Let_def)
  have c: "length (topics s) = 3 \<longrightarrow> t \<notin> set (topics s) \<longrightarrow> handleTopicSelect t s = s"
    by (simp add: handleTopicSelect_def Let_def)
  have d: "length (topics s) \<le> 3 \<and> (unit s = None \<or> topics s = []) \<and>
      unit (handleTopicSelect t s) = None" if "selectable s"
    using selectable_invariant [OF that] handleTopicSelect_exclusive [of s t] by blast
  show ?thesis using a b c d by blast
qed

text \<open>
  A unit is selected, then three topics (the first click clears the unit), then a fourth
  topic is clicked and nothing changes; clicking a unit afterwards clears the topics.
\<close>

theorem topic_selection_invariant_witness:
  "selectable \<lparr>unit = None, topics = [''a'', ''b'', ''c'']\<rparr> \<and>
   handleTopicSelect ''a'' \<lparr>unit = Some ''U1'', topics = []\<rparr> = \<lparr>unit = None, topics = [''a'']\<rparr> \<and>
   handleTopicSelect ''d'' \<lparr>unit = None, topics = [''a'', ''b'', ''c'']\<rparr>
     = \<lparr>unit = None, topics = [''a'', ''b'', ''c'']\<rparr> \<and>
   handleTopicSelect ''b'' \<lparr>unit = None, topics = [''a'', ''b'', ''c'']\<rparr>
     = \<lparr>unit = None, topics = [''a'', ''c'']\<rparr> \<and>
   topics (handleUnitSelect ''U2'' \<lparr>unit = None, topics = [''a'', ''b'', ''c'']\<rparr>) = []"
proof -
  define s3 where "s3 = \<lparr>unit = None, topics = [''a'', ''b'', ''c'']\<rparr>"
  have s0: "selectable (handleUnitSelect ''U1'' initialSelection)"
    by (rule selectable.unit_click) (rule selectable.initial)
  have e0: "handleUnitSelect ''U1'' initialSelection = \<lparr>unit = Some ''U1'', topics = []\<rparr>"
    by (simp add: handleUnitSelect_def initialSelection_def)
  have e1: "handleTopicSelect ''a'' \<lparr>unit = Some ''U1'', topics = []\<rparr> = \<lparr>unit = None, topics = [''a'']\<rparr>"
    by (simp add: handleTopicSelect_def)
  have e2: "handleTopicSelect ''b'' \<lparr>unit = None, topics = [''a'']\<rparr> = \<lparr>unit = None, topics = [''a'', ''b'']\<rparr>"
    by (simp add: handleTopicSelect_def)
  have e3: "handleTopicSelect ''c'' \<lparr>unit = None, topics = [''a'', ''b'']\<rparr> = s3"
    by (simp add: handleTopicSelect_def s3_def)
  have s1: "selectable \<lparr>unit = None, topics = [''a'']\<rparr>"
    using selectable.topic_click [OF s0, of "''a''"] unfolding e0 e1 .
  have s2: "selectable \<lparr>unit = None, topics = [''a'', ''b'']\<rparr>"
    using selectable.topic_click [OF s1, of "''b''"] unfolding e2 .
  have r: "selectable s3"
    using selectable.topic_click [OF s2, of "''c''"] unfolding e3 .
  have l: "length (topics s3) = 3" "''d'' \<notin> set (topics s3)" by (simp_all add: s3_def)
  from topic_selection_invariant [of "''U2''" s3 "''d''"] l
  have "handleTopicSelect ''d'' s3 = s3 \<and> topics (handleUnitSelect ''U2'' s3) = []" by blast
  moreover have "handleTopicSelect ''b'' s3 = \<lparr>unit = None, topics = [''a'', ''c'']\<rparr>"
    by (simp add: handleTopicSelect_def s3_def)
  ultimately show ?thesis using r e1 unfolding s3_def by simp
qed

section \<open>Quiz grading (QuizRunner)\<close>

datatype QuizType = mcq_single | mcq_multiple | subjective_short

text \<open>
  \<^verbatim>\<open>type QuizQuestion = { question: string; options?: string[]; answer: string[];
  type: QuizType; explanation: string; }\<close> and
  \<^verbatim>\<open>type Quiz = { title: string; questions: QuizQuestion[]; swotAnalysis: string; }\<close>.
  Strings are sequences of code units; the model has the code units below 256.
\<close>

record QuizQuestion =
  question :: string
  options :: "string list option"
  answer :: "string list"
  type :: QuizType
  explanation :: string

record Quiz =
  title :: string
  questions :: "QuizQuestion list"
  swotAnalysis :: string

subsection \<open>\<^verbatim>\<open>JSON.stringify\<close> of an array of strings\<close>

definition hex_digit :: "nat \<Rightarrow> char" where
  "hex_digit n = ''0123456789abcdef'' ! (n mod 16)"

text \<open>
  The quoting of one code unit in a JSON string: the double quote (0x22) and the backslash
  (0x5C) are escaped, the control characters are written \<^verbatim>\<open>\b \t \n \f \r\<close> or
  \<^verbatim>\<open>\u00XX\<close>, every other code unit stands for itself.
\<close>

definition json_escape :: "char \<Rightarrow> string" where
  "json_escape c =
     (if c = CHR 0x22 then [CHR 0x5C, CHR 0x22]
      else if c = CHR 0x5C then [CHR 0x5C, CHR 0x5C]
      else if c = CHR 0x08 then [CHR 0x5C, CHR ''b'']
      else if c = CHR 0x09 then [CHR 0x5C, CHR ''t'']
      else if c = CHR 0x0A then [CHR 0x5C, CHR ''n'']
      else if c = CHR 0x0C then [CHR 0x5C, CHR ''f'']
      else if c = CHR 0x0D then [CHR 0x5C, CHR ''r'']
      else if (of_char c :: nat) < 0x20
      then [CHR 0x5C, CHR ''u'', CHR ''0'', CHR ''0'',
            hex_digit (of_char c div 16), hex_digit (of_char c mod 16)]
      else [c])"

definition json_string :: "string \<Rightarrow> string" where
  "json_string s = CHR 0x22 # concat (map json_escape s) @ [CHR 0x22]"

fun json_elements :: "string list \<Rightarrow> string" where
  "json_elements [] = []"
| "json_elements [x] = json_string x"
| "json_elements (x # y # ys) = json_string x @ CHR '','' # json_elements (y # ys)"

definition JSON_stringify :: "string list \<Rightarrow> string" where
  "JSON_stringify xs = CHR ''['' # json_elements xs @ [CHR '']'']"

subsection \<open>handleSubmit\<close>

text \<open>
  \<^verbatim>\<open>useState<{ score: number; incorrectQuestions: QuizQuestion[] } | null>(null)\<close>.
  \<^verbatim>\<open>incorrectQuestions\<close> holds references to the question objects of
  \<^verbatim>\<open>quiz.questions\<close>, not copies; a reference is modelled by the position of the object
  in \<^verbatim>\<open>quiz.questions\<close>.
\<close>

record QuizResults =
  score :: nat
  incorrectQuestions :: "nat list"

text \<open>
  The state of a QuizRunner: the \<^verbatim>\<open>quiz\<close> prop (an object shared with the parent
  component) and the five \<^verbatim>\<open>useState\<close> cells. \<^verbatim>\<open>userAnswers\<close> is an object keyed by
  question index.
\<close>

record QuizRunner =
  quiz :: Quiz
  userAnswers :: "nat \<rightharpoonup> string list"
  submitted :: bool
  results :: "QuizResults option"
  personalizedSuggestions :: string
  isLoadingSuggestions :: bool

text \<open>
  The body of \<^verbatim>\<open>quiz.questions.forEach((q, i) => ...)\<close>, as a recursion over the
  questions from index \<open>i\<close> on. \<^verbatim>\<open>Array.prototype.sort\<close> without a comparator orders
  strings by their code units and sorts the array it is called on in place: calling it on
  \<^verbatim>\<open>q.answer\<close> and on \<^verbatim>\<open>userAnswers[i]\<close> changes the question object and the stored
  answer, so the function returns the questions and the answers as they are afterwards,
  with the score and the incorrect list.
\<close>

fun gradeQuestions ::
  "nat \<Rightarrow> QuizQuestion list \<Rightarrow> (nat \<rightharpoonup> string list) \<Rightarrow> nat \<Rightarrow> nat list
   \<Rightarrow> QuizQuestion list \<times> (nat \<rightharpoonup> string list) \<times> nat \<times> nat list" where
  "gradeQuestions i [] ua sc inc = ([], ua, sc, inc)"
| "gradeQuestions i (q # qs) ua sc inc =
     (let correctAnswers = sort (answer q);
          q' = q\<lparr>answer := correctAnswers\<rparr>;
          givenAnswers = sort (case ua i of None \<Rightarrow> [] | Some a \<Rightarrow> a);
          ua' = (case ua i of None \<Rightarrow> ua | Some a \<Rightarrow> ua(i \<mapsto> givenAnswers));
          correct = (JSON_stringify correctAnswers = JSON_stringify givenAnswers);
          sc' = (if correct then sc + 1 else sc);
          inc' = (if correct then inc else inc @ [i]);
          (qs', ua'', sc'', inc'') = gradeQuestions (Suc i) qs ua' sc' inc'
      in (q' # qs', ua'', sc'', inc''))"

text \<open>
  A free identifier of the module: \<open>Unbound\<close> when no declaration of it is in scope
  (evaluating it throws a ReferenceError), otherwise bound to a value of which only the
  truthiness is used.
\<close>

datatype binding = Unbound | Bound bool

text \<open>
  What \<^verbatim>\<open>await api.generateContent(...)\<close> and reading \<^verbatim>\<open>response.text\<close> do inside the
  \<^verbatim>\<open>try\<close> block: throw, or give the text.
\<close>

datatype api_outcome = Throws | Returns string

text \<open>How the promise of the async handler settles.\<close>

datatype promise = Fulfilled | Rejected js_error

text \<open>\<^verbatim>\<open>xs.join(sep)\<close>\<close>

fun join :: "string \<Rightarrow> string list \<Rightarrow> string" where
  "join sep [] = []"
| "join sep [x] = x"
| "join sep (x # y # ys) = x @ sep @ join sep (y # ys)"

definition suggestionsPrompt :: "string \<Rightarrow> TopicSelection \<Rightarrow> QuizQuestion list \<Rightarrow> string" where
  \<open>suggestionsPrompt subject topicSelection incorrect =
     (let selectionText =
            (case unit topicSelection of
               Some u \<Rightarrow> (if u \<noteq> [] then ''the unit "'' @ u @ ''"''
                          else ''the topics: '' @ join '', '' (topics topicSelection))
             | None \<Rightarrow> ''the topics: '' @ join '', '' (topics topicSelection));
          incorrectPrompts =
            join ''\<newline>\<newline>''
              (map (\<lambda>q. ''Question: '' @ question q @ ''\<newline>Correct Answer: '' @ join '', '' (answer q)
                         @ ''\<newline>Explanation: '' @ explanation q) incorrect)
      in ''A student studying "'' @ subject @ ''" for '' @ selectionText
         @ '' answered some quiz questions incorrectly. Based on their errors below, generate a "Personalized Study Suggestions" section. For each incorrect area, explain the core concept they might be missing and suggest 1-2 high-quality online resources (like a specific Wikipedia page, a university lecture video on YouTube, or a well-regarded tutorial article) to help them understand it better. Format this as markdown.\<newline>\<newline>INCORRECT QUESTIONS:\<newline>''
         @ incorrectPrompts)\<close>

text \<open>
  \<^verbatim>\<open>handleSubmit\<close>. \<open>ai\<close> is the binding of the identifier \<^verbatim>\<open>ai\<close> that the guard
  \<^verbatim>\<open>incorrectQuestions.length > 0 && ai\<close> reads, and \<open>response\<close> is what the request to
  the backend does if it is made. The result is how the handler's promise settles, the
  prompts of the requests it issued, and the state afterwards.
\<close>

definition handleSubmit ::
  "binding \<Rightarrow> api_outcome \<Rightarrow> string \<Rightarrow> TopicSelection \<Rightarrow> QuizRunner
   \<Rightarrow> promise \<times> string list \<times> QuizRunner" where
  "handleSubmit ai response subject topicSelection st =
     (let (qs, ua, sc, inc) = gradeQuestions 0 (questions (quiz st)) (userAnswers st) 0 [];
          st = st\<lparr>quiz := (quiz st)\<lparr>questions := qs\<rparr>, userAnswers := ua\<rparr>;
          st = st\<lparr>results := Some \<lparr>score = sc, incorrectQuestions = inc\<rparr>\<rparr>;
          st = st\<lparr>submitted := True\<rparr>
      in if length inc > 0
         then (case ai of
                 Unbound \<Rightarrow> (Rejected ReferenceError, [], st)
               | Bound truthy \<Rightarrow>
                   if truthy
                   then (let st = st\<lparr>isLoadingSuggestions := True\<rparr>;
                             prompt = suggestionsPrompt subject topicSelection (map (\<lambda>i. qs ! i) inc);
                             st = (case response of
                                     Returns text \<Rightarrow> st\<lparr>personalizedSuggestions := text\<rparr>
                                   | Throws \<Rightarrow> st\<lparr>personalizedSuggestions :=
                                       ''Could not generate personalized suggestions at this time.''\<rparr>);
                             st = st\<lparr>isLoadingSuggestions := False\<rparr>
                         in (Fulfilled, [prompt], st))
                   else (Fulfilled, [], st))
         else (Fulfilled, [], st))"

subsection \<open>Properties of the grading\<close>

text \<open>\<^verbatim>\<open>userAnswers[i] || []\<close>: the stored answer, or the empty array when there is none.\<close>

definition givenAnswers :: "(nat \<rightharpoonup> string list) \<Rightarrow> nat \<Rightarrow> string list" where
  "givenAnswers ua i = (case ua i of None \<Rightarrow> [] | Some a \<Rightarrow> a)"

text \<open>
  The grading rule in the words of the specification: question \<open>i\<close> is answered correctly
  when the canonical answers and the given answers are equal after sorting both.
\<close>

definition answeredCorrectly :: "QuizQuestion list \<Rightarrow> (nat \<rightharpoonup> string list) \<Rightarrow> nat \<Rightarrow> bool" where
  "answeredCorrectly qs ua i \<longleftrightarrow> sort (answer (qs ! i)) = sort (givenAnswers ua i)"

text \<open>The question object after \<^verbatim>\<open>q.answer.sort()\<close>.\<close>

definition sortAnswer :: "QuizQuestion \<Rightarrow> QuizQuestion" where
  "sortAnswer q = q\<lparr>answer := sort (answer q)\<rparr>"

subsection \<open>\<^verbatim>\<open>JSON.stringify\<close> is injective on arrays of strings\<close>

lemma hex_digit_inj:
  assumes "n < 16" "m < 16" "hex_digit n = hex_digit m"
  shows "n = m"
proof -
  have d: "distinct ''0123456789abcdef''" by simp
  have l: "length ''0123456789abcdef'' = 16" by simp
  from assms have "''0123456789abcdef'' ! n = ''0123456789abcdef'' ! m"
    by (simp add: hex_digit_def)
  with d assms(1,2) l show ?thesis
    by (metis nth_eq_iff_index_eq)
qed

lemma control_char_eq:
  assumes "(of_char c :: nat) < 32" "(of_char d :: nat) < 32"
    and "hex_digit (of_char c div 16) = hex_digit (of_char d div 16)"
    and "hex_digit (of_char c mod 16) = hex_digit (of_char d mod 16)"
  shows "c = d"
proof -
  have "(of_char c :: nat) div 16 = of_char d div 16"
    using assms(1,2,3) by (intro hex_digit_inj) simp_all
  moreover have "(of_char c :: nat) mod 16 = of_char d mod 16"
    using assms(4) by (intro hex_digit_inj) simp_all
  ultimately have "(of_char c :: nat) = of_char d"
    by (metis div_mult_mod_eq)
  then show ?thesis by simp
qed

lemma json_escape_inj:
  assumes "json_escape c @ u = json_escape d @ v"
  shows "c = d \<and> u = v"
  using assms
  by (auto simp: json_escape_def split: if_splits dest: control_char_eq)

lemma json_escape_hd: "\<exists>x xs. json_escape c = x # xs \<and> x \<noteq> CHR 0x22"
  by (simp add: json_escape_def)

lemma json_body_inj:
  "concat (map json_escape s) @ CHR 0x22 # u = concat (map json_escape t) @ CHR 0x22 # v
   \<Longrightarrow> s = t \<and> u = v"
proof (induction s arbitrary: t)
  case Nil
  show ?case
  proof (cases t)
    case Nil
    with Nil.prems show ?thesis by simp
  next
    case (Cons d t')
    obtain x xs where "json_escape d = x # xs" "x \<noteq> CHR 0x22"
      using json_escape_hd by blast
    with Nil.prems Cons show ?thesis by simp
  qed
next
  case (Cons c s')
  show ?case
  proof (cases t)
    case Nil
    obtain x xs where "json_escape c = x # xs" "x \<noteq> CHR 0x22"
      using json_escape_hd by blast
    with Cons.prems Nil show ?thesis by simp
  next
    case (Cons d t')
    with Cons.prems
    have "json_escape c @ (concat (map json_escape s') @ CHR 0x22 # u)
          = json_escape d @ (concat (map json_escape t') @ CHR 0x22 # v)" by simp
    then have "c = d" and r: "concat (map json_escape s') @ CHR 0x22 # u
          = concat (map json_escape t') @ CHR 0x22 # v"
      using json_escape_inj by blast+
    with Cons.IH [OF r] Cons show ?thesis by simp
  qed
qed

lemma json_string_inj:
  "json_string s @ u = json_string t @ v \<Longrightarrow> s = t \<and> u = v"
  using json_body_inj [of s u t v] by (simp add: json_string_def)

lemma json_string_hd: "\<exists>r. json_string s = CHR 0x22 # r"
  by (simp add: json_string_def)

lemma json_elements_Cons:
  "json_elements (x # xs) = json_string x @ (if xs = [] then [] else CHR '','' # json_elements xs)"
  by (cases xs) simp_all

lemma json_elements_inj:
  "json_elements xs @ CHR '']'' # u = json_elements ys @ CHR '']'' # v \<Longrightarrow> xs = ys"
proof (induction xs arbitrary: ys)
  case Nil
  show ?case
  proof (cases ys)
    case Nil
    then show ?thesis by simp
  next
    case (Cons y ys')
    obtain r where "json_string y = CHR 0x22 # r" using json_string_hd by blast
    with Nil.prems Cons show ?thesis by (simp add: json_elements_Cons)
  qed
next
  case (Cons x xs')
  show ?case
  proof (cases ys)
    case Nil
    obtain r where "json_string x = CHR 0x22 # r" using json_string_hd by blast
    with Cons.prems Nil show ?thesis by (simp add: json_elements_Cons)
  next
    case (Cons y ys')
    let ?rx = "(if xs' = [] then [] else CHR '','' # json_elements xs') @ CHR '']'' # u"
    let ?ry = "(if ys' = [] then [] else CHR '','' # json_elements ys') @ CHR '']'' # v"
    from Cons.prems Cons have "json_string x @ ?rx = json_string y @ ?ry"
      by (simp add: json_elements_Cons)
    then have xy: "x = y" and r: "?rx = ?ry" using json_string_inj by blast+
    have "xs' = ys'"
    proof (cases "xs' = []")
      case True
      with r show ?thesis by (cases "ys' = []") simp_all
    next
      case False
      with r have "ys' \<noteq> []" by (cases "ys' = []") simp_all
      with r False have "json_elements xs' @ CHR '']'' # u = json_elements ys' @ CHR '']'' # v"
        by simp
      then show ?thesis by (rule Cons.IH)
    qed
    with xy Cons show ?thesis by simp
  qed
qed

lemma JSON_stringify_inj: "JSON_stringify xs = JSON_stringify ys \<longleftrightarrow> xs = ys"
proof
  assume "JSON_stringify xs = JSON_stringify ys"
  then have "json_elements xs @ CHR '']'' # [] = json_elements ys @ CHR '']'' # []"
    by (simp add: JSON_stringify_def)
  then show "xs = ys" by (rule json_elements_inj)
qed simp

lemma sort_eq_iff_mset: "sort xs = sort ys \<longleftrightarrow> mset xs = mset ys"
  for xs ys :: "'a :: linorder list"
proof
  assume "sort xs = sort ys"
  then have "mset (sort xs) = mset (sort ys)" by simp
  then show "mset xs = mset ys" by simp
next
  assume "mset xs = mset ys"
  then show "sort xs = sort ys"
    by (metis properties_for_sort sorted_sort mset_sort)
qed

subsection \<open>What handleSubmit computes\<close>

lemma gradeQuestions_spec:
  "gradeQuestions i qs ua sc inc =
     (map sortAnswer qs,
      (\<lambda>j. if i \<le> j \<and> j < i + length qs then map_option sort (ua j) else ua j),
      sc + length (filter (\<lambda>k. sort (answer (qs ! (k - i))) = sort (givenAnswers ua k)) [i..<i + length qs]),
      inc @ filter (\<lambda>k. sort (answer (qs ! (k - i))) \<noteq> sort (givenAnswers ua k)) [i..<i + length qs])"
proof (induction qs arbitrary: i ua sc inc)
  case Nil
  have "(\<lambda>j. if i \<le> j \<and> j < i then map_option sort (ua j) else ua j) = ua"
    by (rule ext) auto
  then show ?case by simp
next
  case (Cons q qs)
  define ua' where "ua' = (case ua i of None \<Rightarrow> ua | Some a \<Rightarrow> ua(i \<mapsto> sort a))"
  define ok where "ok \<longleftrightarrow> sort (answer q) = sort (givenAnswers ua i)"
  have g: "givenAnswers ua' k = givenAnswers ua k" if "Suc i \<le> k" for k
    using that by (simp add: ua'_def givenAnswers_def split: option.splits)
  have u: "(\<lambda>j. if Suc i \<le> j \<and> j < Suc i + length qs then map_option sort (ua' j) else ua' j)
         = (\<lambda>j. if i \<le> j \<and> j < i + length (q # qs) then map_option sort (ua j) else ua j)"
  proof (rule ext)
    fix j
    show "(if Suc i \<le> j \<and> j < Suc i + length qs then map_option sort (ua' j) else ua' j)
        = (if i \<le> j \<and> j < i + length (q # qs) then map_option sort (ua j) else ua j)"
    proof (cases "j = i")
      case True
      then show ?thesis by (simp add: ua'_def split: option.splits)
    next
      case False
      then have "ua' j = ua j" by (simp add: ua'_def split: option.splits)
      with False show ?thesis by auto
    qed
  qed
  have n: "(q # qs) ! (k - i) = qs ! (k - Suc i)" if "Suc i \<le> k" for k
  proof -
    from that have "k - i = Suc (k - Suc i)" by simp
    then show ?thesis by simp
  qed
  have f1: "filter (\<lambda>k. sort (answer (qs ! (k - Suc i))) = sort (givenAnswers ua' k)) [Suc i..<Suc i + length qs]
          = filter (\<lambda>k. sort (answer ((q # qs) ! (k - i))) = sort (givenAnswers ua k)) [Suc i..<Suc i + length qs]"
  proof (rule filter_cong [OF refl])
    fix k
    assume "k \<in> set [Suc i..<Suc i + length qs]"
    then have k: "Suc i \<le> k" by (metis atLeastLessThan_iff set_upt)
    show "(sort (answer (qs ! (k - Suc i))) = sort (givenAnswers ua' k))
        = (sort (answer ((q # qs) ! (k - i))) = sort (givenAnswers ua k))"
      unfolding g [OF k] n [OF k] ..
  qed
  have f2: "filter (\<lambda>k. sort (answer (qs ! (k - Suc i))) \<noteq> sort (givenAnswers ua' k)) [Suc i..<Suc i + length qs]
          = filter (\<lambda>k. sort (answer ((q # qs) ! (k - i))) \<noteq> sort (givenAnswers ua k)) [Suc i..<Suc i + length qs]"
  proof (rule filter_cong [OF refl])
    fix k
    assume "k \<in> set [Suc i..<Suc i + length qs]"
    then have k: "Suc i \<le> k" by (metis atLeastLessThan_iff set_upt)
    show "(sort (answer (qs ! (k - Suc i))) \<noteq> sort (givenAnswers ua' k))
        = (sort (answer ((q # qs) ! (k - i))) \<noteq> sort (givenAnswers ua k))"
      unfolding g [OF k] n [OF k] ..
  qed
  have up: "[i..<i + length (q # qs)] = i # [Suc i..<Suc i + length qs]"
  proof -
    have "i < i + length (q # qs)" by simp
    then have "[i..<i + length (q # qs)] = i # [Suc i..<i + length (q # qs)]"
      by (rule upt_conv_Cons)
    moreover have "i + length (q # qs) = Suc i + length qs" by simp
    ultimately show ?thesis by (simp only:)
  qed
  have c: "(JSON_stringify (sort (answer q)) = JSON_stringify (sort (case ua i of None \<Rightarrow> [] | Some a \<Rightarrow> a))) = ok"
    by (simp add: JSON_stringify_inj ok_def givenAnswers_def)
  have ua'_alt: "(case ua i of None \<Rightarrow> ua
                  | Some a \<Rightarrow> ua(i \<mapsto> sort (case ua i of None \<Rightarrow> [] | Some a \<Rightarrow> a))) = ua'"
    by (simp add: ua'_def split: option.splits)
  have "gradeQuestions i (q # qs) ua sc inc =
      (case gradeQuestions (Suc i) qs ua' (if ok then sc + 1 else sc) (if ok then inc else inc @ [i])
       of (qs', ua'', sc'', inc'') \<Rightarrow> (sortAnswer q # qs', ua'', sc'', inc''))"
    by (simp add: Let_def c ua'_alt sortAnswer_def)
  also have "\<dots> = (map sortAnswer (q # qs),
      (\<lambda>j. if i \<le> j \<and> j < i + length (q # qs) then map_option sort (ua j) else ua j),
      sc + length (filter (\<lambda>k. sort (answer ((q # qs) ! (k - i))) = sort (givenAnswers ua k)) [i..<i + length (q # qs)]),
      inc @ filter (\<lambda>k. sort (answer ((q # qs) ! (k - i))) \<noteq> sort (givenAnswers ua k)) [i..<i + length (q # qs)])"
    unfolding Cons.IH u f1 f2 up prod.case by (simp add: ok_def)
  finally show ?case .
qed

lemma gradeQuestions_0:
  "gradeQuestions 0 qs ua 0 [] =
     (map sortAnswer qs,
      (\<lambda>j. if j < length qs then map_option sort (ua j) else ua j),
      length (filter (answeredCorrectly qs ua) [0..<length qs]),
      filter (\<lambda>i. \<not> answeredCorrectly qs ua i) [0..<length qs])"
proof -
  have a: "answeredCorrectly qs ua = (\<lambda>k. sort (answer (qs ! k)) = sort (givenAnswers ua k))"
    by (rule ext) (simp add: answeredCorrectly_def)
  show ?thesis by (simp add: gradeQuestions_spec a)
qed

lemma handleSubmit_results:
  "results (snd (snd (handleSubmit ai response subject sel st))) =
     Some \<lparr>score = length (filter (answeredCorrectly (questions (quiz st)) (userAnswers st))
                      [0..<length (questions (quiz st))]),
           incorrectQuestions = filter (\<lambda>i. \<not> answeredCorrectly (questions (quiz st)) (userAnswers st) i)
                      [0..<length (questions (quiz st))]\<rparr>"
  by (simp add: handleSubmit_def gradeQuestions_0 Let_def split: binding.splits api_outcome.splits)

lemma handleSubmit_quiz:
  "quiz (snd (snd (handleSubmit ai response subject sel st))) =
     (quiz st)\<lparr>questions := map sortAnswer (questions (quiz st))\<rparr>"
  by (simp add: handleSubmit_def gradeQuestions_0 Let_def split: binding.splits api_outcome.splits)

lemma handleSubmit_submitted:
  "submitted (snd (snd (handleSubmit ai response subject sel st)))"
  by (simp add: handleSubmit_def gradeQuestions_0 Let_def split: binding.splits api_outcome.splits)

subsection \<open>The claims about the quiz\<close>

text \<open>
  The quiz of the specification's scenarios 2 and 3 (one question, canonical answer
  \<^verbatim>\<open>["Paris"]\<close>), a runner holding one answer for it, and a runner for a multiple-choice
  question whose canonical answers are stored in the order \<^verbatim>\<open>["e", "a"]\<close>.
\<close>

definition parisQuiz :: Quiz where
  "parisQuiz =
     \<lparr>title = ''Capitals'',
      questions = [\<lparr>question = ''What is the capital of France?'', options = None,
                    answer = [''Paris''], type = subjective_short,
                    explanation = ''Paris is the capital of France.''\<rparr>],
      swotAnalysis = ''''\<rparr>"

definition parisRunner :: "string list \<Rightarrow> QuizRunner" where
  "parisRunner given =
     \<lparr>quiz = parisQuiz, userAnswers = [0 \<mapsto> given], submitted = False, results = None,
      personalizedSuggestions = '''', isLoadingSuggestions = False\<rparr>"

definition multiRunner :: "string list \<Rightarrow> QuizRunner" where
  "multiRunner given =
     \<lparr>quiz = \<lparr>title = ''Letters'',
              questions = [\<lparr>question = ''Which are vowels?'',
                            options = Some [''a'', ''b'', ''e''],
                            answer = [''e'', ''a''], type = mcq_multiple,
                            explanation = ''a and e are vowels.''\<rparr>],
              swotAnalysis = ''''\<rparr>,
      userAnswers = [0 \<mapsto> given], submitted = False, results = None,
      personalizedSuggestions = '''', isLoadingSuggestions = False\<rparr>"

lemma answeredCorrectly_mset:
  "answeredCorrectly qs ua i \<longleftrightarrow> mset (answer (qs ! i)) = mset (givenAnswers ua i)"
  by (simp add: answeredCorrectly_def sort_eq_iff_mset)

text \<open>
  Claim C2. For every quiz and every user answers, the committed result has as score the
  number of questions whose sorted canonical answers equal the sorted given answers (a
  missing answer counting as the empty array), and as incorrect list the other questions
  in their original order. Equality after sorting is equality of the multisets of strings:
  exact and case-sensitive per element, independent of order, all or nothing. So answers
  that are permutations of each other give the same result; \<^verbatim>\<open>["Paris"]\<close> against
  \<^verbatim>\<open>["Paris"]\<close> scores 1 with nothing incorrect, and \<^verbatim>\<open>["paris"]\<close> scores 0 with the
  question in the incorrect list.
\<close>

theorem quiz_grading:
  "results (snd (snd (handleSubmit ai response subject sel st))) =
     Some \<lparr>score = length (filter (answeredCorrectly (questions (quiz st)) (userAnswers st))
                      [0..<length (questions (quiz st))]),
           incorrectQuestions = filter (\<lambda>i. \<not> answeredCorrectly (questions (quiz st)) (userAnswers st) i)
                      [0..<length (questions (quiz st))]\<rparr> \<and>
   (answeredCorrectly qs ua i \<longleftrightarrow> mset (answer (qs ! i)) = mset (givenAnswers ua i)) \<and>
   (quiz st' = quiz st \<longrightarrow>
    (\<forall>i. mset (givenAnswers (userAnswers st') i) = mset (givenAnswers (userAnswers st) i)) \<longrightarrow>
      results (snd (snd (handleSubmit ai response subject sel st'))) =
      results (snd (snd (handleSubmit ai response subject sel st)))) \<and>
   results (snd (snd (handleSubmit ai response subject sel (parisRunner [''Paris'']))))
     = Some \<lparr>score = 1, incorrectQuestions = []\<rparr> \<and>
   results (snd (snd (handleSubmit ai response subject sel (parisRunner [''paris'']))))
     = Some \<lparr>score = 0, incorrectQuestions = [0]\<rparr>"
proof -
  have p: "results (snd (snd (handleSubmit ai response subject sel st'))) =
      results (snd (snd (handleSubmit ai response subject sel st)))"
    if q: "quiz st' = quiz st"
      and m: "\<forall>i. mset (givenAnswers (userAnswers st') i) = mset (givenAnswers (userAnswers st) i)"
  proof -
    have "answeredCorrectly (questions (quiz st)) (userAnswers st')
        = answeredCorrectly (questions (quiz st)) (userAnswers st)"
      by (rule ext) (simp add: answeredCorrectly_mset m)
    then show ?thesis by (simp add: handleSubmit_results q)
  qed
  have e1: "results (snd (snd (handleSubmit ai response subject sel (parisRunner [''Paris'']))))
     = Some \<lparr>score = 1, incorrectQuestions = []\<rparr>"
    by (simp add: handleSubmit_results parisRunner_def parisQuiz_def answeredCorrectly_def
        givenAnswers_def)
  have e2: "results (snd (snd (handleSubmit ai response subject sel (parisRunner [''paris'']))))
     = Some \<lparr>score = 0, incorrectQuestions = [0]\<rparr>"
    by (simp add: handleSubmit_results parisRunner_def parisQuiz_def answeredCorrectly_def
        givenAnswers_def)
  show ?thesis using handleSubmit_results answeredCorrectly_mset p e1 e2 by blast
qed

text \<open>
  The answers \<^verbatim>\<open>["a", "e"]\<close> and \<^verbatim>\<open>["e", "a"]\<close> to a question with canonical answers
  \<^verbatim>\<open>["e", "a"]\<close> are graded alike (score 1); the partial answer \<^verbatim>\<open>["a"]\<close> scores 0.
\<close>

theorem quiz_grading_witness:
  "quiz (multiRunner [''a'', ''e'']) = quiz (multiRunner [''e'', ''a'']) \<and>
   results (snd (snd (handleSubmit (Bound True) Throws ''Alphabet'' \<lparr>unit = None, topics = [''Vowels'']\<rparr>
                        (multiRunner [''a'', ''e'']))))
   = results (snd (snd (handleSubmit (Bound True) Throws ''Alphabet'' \<lparr>unit = None, topics = [''Vowels'']\<rparr>
                        (multiRunner [''e'', ''a''])))) \<and>
   results (snd (snd (handleSubmit (Bound True) Throws ''Alphabet'' \<lparr>unit = None, topics = [''Vowels'']\<rparr>
                        (multiRunner [''e'', ''a'']))))
   = Some \<lparr>score = 1, incorrectQuestions = []\<rparr> \<and>
   results (snd (snd (handleSubmit (Bound True) Throws ''Alphabet'' \<lparr>unit = None, topics = [''Vowels'']\<rparr>
                        (multiRunner [''a'']))))
   = Some \<lparr>score = 0, incorrectQuestions = [0]\<rparr>"
proof -
  have q: "quiz (multiRunner [''a'', ''e'']) = quiz (multiRunner [''e'', ''a''])"
    by (simp add: multiRunner_def)
  have m: "\<forall>i. mset (givenAnswers (userAnswers (multiRunner [''a'', ''e''])) i)
             = mset (givenAnswers (userAnswers (multiRunner [''e'', ''a''])) i)"
    by (simp add: multiRunner_def givenAnswers_def)
  note t = quiz_grading [of "Bound True" Throws "''Alphabet''" "\<lparr>unit = None, topics = [''Vowels'']\<rparr>"]
  from t [of "multiRunner [''e'', ''a'']" _ _ _ "multiRunner [''a'', ''e'']"] q m
  have a: "results (snd (snd (handleSubmit (Bound True) Throws ''Alphabet'' \<lparr>unit = None, topics = [''Vowels'']\<rparr>
                        (multiRunner [''a'', ''e'']))))
   = results (snd (snd (handleSubmit (Bound True) Throws ''Alphabet'' \<lparr>unit = None, topics = [''Vowels'']\<rparr>
                        (multiRunner [''e'', ''a'']))))" by blast
  have b: "results (snd (snd (handleSubmit (Bound True) Throws ''Alphabet'' \<lparr>unit = None, topics = [''Vowels'']\<rparr>
                        (multiRunner [''e'', ''a'']))))
   = Some \<lparr>score = 1, incorrectQuestions = []\<rparr>"
    by (simp add: handleSubmit_results multiRunner_def answeredCorrectly_def givenAnswers_def)
  have c: "results (snd (snd (handleSubmit (Bound True) Throws ''Alphabet'' \<lparr>unit = None, topics = [''Vowels'']\<rparr>
                        (multiRunner [''a'']))))
   = Some \<lparr>score = 0, incorrectQuestions = [0]\<rparr>"
    by (simp add: handleSubmit_results multiRunner_def answeredCorrectly_def givenAnswers_def)
  show ?thesis using q a b c by blast
qed

text \<open>
  Claim C8 says that grading leaves the quiz unchanged, the order of every answer array
  included. The code breaks it: \<^verbatim>\<open>q.answer.sort()\<close> sorts the array of the question object
  itself (FlashcardView copies before it sorts, \<^verbatim>\<open>[...flashcards].sort(...)\<close>; handleSubmit
  does not). A question whose canonical answers are stored as \<^verbatim>\<open>["e", "a"]\<close> holds
  \<^verbatim>\<open>["a", "e"]\<close> after grading, and the quiz is no longer the quiz that was passed in.
\<close>

theorem grading_sorts_answers_in_place:
  "map answer (questions (quiz (multiRunner [''a'', ''e'']))) = [[''e'', ''a'']] \<and>
   map answer (questions (quiz (snd (snd (handleSubmit (Bound True) (Returns ''ok'') ''Alphabet''
      \<lparr>unit = None, topics = [''Vowels'']\<rparr> (multiRunner [''a'', ''e'']))))))
     = [[''a'', ''e'']] \<and>
   quiz (snd (snd (handleSubmit (Bound True) (Returns ''ok'') ''Alphabet''
      \<lparr>unit = None, topics = [''Vowels'']\<rparr> (multiRunner [''a'', ''e'']))))
     \<noteq> quiz (multiRunner [''a'', ''e''])"
  by (simp add: handleSubmit_quiz multiRunner_def sortAnswer_def)

text \<open>
  Claim C9 says that with a non-empty incorrect list a suggestions request is issued and
  that its failure degrades to the fixed message. The code breaks it: the guard reads the
  identifier \<^verbatim>\<open>ai\<close>, and no declaration of \<^verbatim>\<open>ai\<close> is in scope in QuizRunner (it declares
  \<^verbatim>\<open>api\<close>, which the sibling handlers test). With the identifier unbound and one wrong
  answer, the handler's promise is rejected with a ReferenceError after the result is
  committed: no request is sent and the suggestions stay empty, whether or not the backend
  would have failed.
\<close>

theorem suggestions_guard_throws:
  "fst (handleSubmit Unbound Throws ''Geography'' \<lparr>unit = None, topics = [''Capitals'']\<rparr>
          (parisRunner [''paris''])) = Rejected ReferenceError \<and>
   fst (snd (handleSubmit Unbound Throws ''Geography'' \<lparr>unit = None, topics = [''Capitals'']\<rparr>
          (parisRunner [''paris'']))) = [] \<and>
   results (snd (snd (handleSubmit Unbound Throws ''Geography'' \<lparr>unit = None, topics = [''Capitals'']\<rparr>
          (parisRunner [''paris''])))) = Some \<lparr>score = 0, incorrectQuestions = [0]\<rparr> \<and>
   personalizedSuggestions (snd (snd (handleSubmit Unbound Throws ''Geography''
          \<lparr>unit = None, topics = [''Capitals'']\<rparr> (parisRunner [''paris'']))))
     = ''''"
  by (simp add: handleSubmit_def Let_def parisRunner_def parisQuiz_def JSON_stringify_inj)

text \<open>
  Were \<^verbatim>\<open>ai\<close> bound to a truthy value, a non-empty incorrect list would send exactly one
  request, whose failure would give the fixed message.
\<close>

lemma suggestions_when_ai_bound:
  assumes "incorrectQuestions (the (results (snd (snd (handleSubmit (Bound True) response subject sel st))))) \<noteq> []"
  shows "length (fst (snd (handleSubmit (Bound True) response subject sel st))) = 1"
    and "fst (handleSubmit (Bound True) response subject sel st) = Fulfilled"
    and "response = Throws \<Longrightarrow>
         personalizedSuggestions (snd (snd (handleSubmit (Bound True) response subject sel st)))
           = ''Could not generate personalized suggestions at this time.''"
    and "response = Returns text \<Longrightarrow>
         personalizedSuggestions (snd (snd (handleSubmit (Bound True) response subject sel st))) = text"
  using assms
  by (auto simp: handleSubmit_def gradeQuestions_0 Let_def split: api_outcome.splits if_splits)

text \<open>
  Whatever \<^verbatim>\<open>ai\<close> is bound to and whatever the backend does, the committed score and
  incorrect list are the same.
\<close>

lemma results_independent_of_suggestions:
  "results (snd (snd (handleSubmit ai response subject sel st)))
     = results (snd (snd (handleSubmit ai' response' subject' sel' st)))"
  by (simp add: handleSubmit_results)

section \<open>Markdown rendering (FormattedContent)\<close>

subsection \<open>The string operations it uses\<close>

text \<open>
  Strings are sequences of code units, of which the model has those below 256. Among them
  the line terminators are LF and CR, and white space (what \<^verbatim>\<open>trim\<close> strips and
  \<^verbatim>\<open>\s\<close> matches) is TAB, LF, VT, FF, CR, space and the no-break space.
\<close>

definition is_line_terminator :: "char \<Rightarrow> bool" where
  "is_line_terminator c \<longleftrightarrow> c = CHR 0x0A \<or> c = CHR 0x0D"

definition is_space :: "char \<Rightarrow> bool" where
  "is_space c \<longleftrightarrow> c \<in> set [CHR 0x09, CHR 0x0A, CHR 0x0B, CHR 0x0C, CHR 0x0D, CHR 0x20, CHR 0xA0]"

definition is_digit :: "char \<Rightarrow> bool" where
  "is_digit c \<longleftrightarrow> c \<in> set ''0123456789''"

text \<open>\<^verbatim>\<open>s.trim()\<close>\<close>

definition trim :: "string \<Rightarrow> string" where
  "trim s = rev (dropWhile is_space (rev (dropWhile is_space s)))"

text \<open>\<^verbatim>\<open>s.startsWith(p)\<close>\<close>

definition startsWith :: "string \<Rightarrow> string \<Rightarrow> bool" where
  "startsWith s p \<longleftrightarrow> take (length p) s = p"

text \<open>\<^verbatim>\<open>content.split('\n')\<close>: the pieces between line feeds; never an empty array.\<close>

fun split_lines :: "string \<Rightarrow> string list" where
  "split_lines [] = [[]]"
| "split_lines (c # cs) =
     (if c = CHR 0x0A then [] # split_lines cs
      else (case split_lines cs of [] \<Rightarrow> [[c]] | l # ls \<Rightarrow> (c # l) # ls))"

text \<open>
  The regular expression \<^verbatim>\<open>/^\d+\.\s/\<close>: one or more digits, a full stop, one white-space
  character. \<open>match_ordered s\<close> is what \<^verbatim>\<open>s.replace(/^\d+\.\s/, '')\<close> leaves when the
  expression matches, and \<open>None\<close> when \<^verbatim>\<open>s.match(/^\d+\.\s/)\<close> is null.
\<close>

definition match_ordered :: "string \<Rightarrow> string option" where
  "match_ordered s =
     (if takeWhile is_digit s = [] then None
      else (case dropWhile is_digit s of
              d # w # rest \<Rightarrow> if d = CHR ''.'' \<and> is_space w then Some rest else None
            | _ \<Rightarrow> None))"

text \<open>
  The lazy group of \<^verbatim>\<open>/D(.*?)D/\<close> after the opening delimiter \<open>D\<close> has matched: the
  shortest run of characters other than line terminators that is followed by \<open>D\<close>, and
  the text after that closing delimiter.
\<close>

fun find_close :: "string \<Rightarrow> string \<Rightarrow> (string \<times> string) option" where
  "find_close d [] = (if d = [] then Some ([], []) else None)"
| "find_close d (c # cs) =
     (if take (length d) (c # cs) = d then Some ([], drop (length d) (c # cs))
      else if is_line_terminator c then None
      else (case find_close d cs of
              None \<Rightarrow> None
            | Some (cap, rest) \<Rightarrow> Some (c # cap, rest)))"

lemma find_close_length:
  "find_close d s = Some (cap, rest) \<Longrightarrow> length rest \<le> length s"
proof (induction s arbitrary: cap rest)
  case Nil
  then show ?case by (simp split: if_splits)
next
  case (Cons c cs)
  show ?case
  proof (cases "take (length d) (c # cs) = d")
    case True
    with Cons.prems have "rest = drop (length d) (c # cs)" by simp
    then show ?thesis by simp
  next
    case False
    with Cons.prems obtain cap' where "find_close d cs = Some (cap', rest)"
      by (auto split: if_splits option.splits)
    then have "length rest \<le> length cs" by (rule Cons.IH)
    then show ?thesis by simp
  qed
qed

text \<open>
  \<^verbatim>\<open>s.replace(/D(.*?)D/g, '<tag>$1</tag>')\<close> for a delimiter \<open>D\<close> made of asterisks:
  matches are looked for from left to right, each search starting where the previous match
  ended.
\<close>

function replace_spans :: "string \<Rightarrow> string \<Rightarrow> string \<Rightarrow> string" where
  "replace_spans d tag [] = []"
| "replace_spans d tag (c # cs) =
     (if d \<noteq> [] \<and> take (length d) (c # cs) = d
      then (case find_close d (drop (length d) (c # cs)) of
              Some (cap, rest) \<Rightarrow>
                ''<'' @ tag @ ''>'' @ cap @ ''</'' @ tag @ ''>'' @ replace_spans d tag rest
            | None \<Rightarrow> c # replace_spans d tag cs)
      else c # replace_spans d tag cs)"
  by pat_completeness auto
termination
proof (relation "measure (\<lambda>(d, tag, s). length s)")
  show "wf (measure (\<lambda>(d, tag, s). length s))" by simp
next
  fix d tag :: string and c cs x2 cap rest
  assume d: "d \<noteq> [] \<and> take (length d) (c # cs) = d"
    and f: "find_close d (drop (length d) (c # cs)) = Some x2" "(cap, rest) = x2"
  from f have "length rest \<le> length (drop (length d) (c # cs))"
    using find_close_length by metis
  then have "length rest \<le> Suc (length cs) - length d" by simp
  moreover have "0 < length d" using d by simp
  ultimately have "length rest < Suc (length cs)" by linarith
  then have "length rest < length (c # cs)" by simp
  then show "((d, tag, rest), (d, tag, c # cs)) \<in> measure (\<lambda>(d, tag, s). length s)" by simp
qed simp_all

text \<open>The object \<^verbatim>\<open>{ __html: line }\<close> handed to \<^verbatim>\<open>dangerouslySetInnerHTML\<close>.\<close>

datatype innerHTML = InnerHTML string

definition formatLine :: "string \<Rightarrow> innerHTML" where
  "formatLine line =
     (let line = replace_spans ''**'' ''strong'' line;
          line = replace_spans ''*'' ''em'' line
      in InnerHTML line)"

subsection \<open>The block pass\<close>

datatype listTag = ul | ol

text \<open>
  The elements pushed: headings and \<^verbatim>\<open>pre\<close> carry their text as a child (React inserts a
  string child as text); list items and paragraphs carry the result of \<open>formatLine\<close>, set
  as the inner HTML of the node. React keys and styles are left out.
\<close>

datatype element =
    H1 string
  | H2 string
  | H3 string
  | ListTag listTag "innerHTML list"
  | P innerHTML
  | Pre string

record renderer =
  elements :: "element list"
  listType :: "listTag option"
  listItems :: "string list"
  isCodeBlock :: bool
  codeContent :: string

definition initialRenderer :: renderer where
  "initialRenderer =
     \<lparr>elements = [], listType = None, listItems = [], isCodeBlock = False, codeContent = []\<rparr>"

definition closeList :: "renderer \<Rightarrow> renderer" where
  "closeList st =
     (case listType st of
        Some tag \<Rightarrow>
          if length (listItems st) > 0
          then st\<lparr>elements := elements st @ [ListTag tag (map formatLine (listItems st))],
                  listItems := [], listType := None\<rparr>
          else st
      | None \<Rightarrow> st)"

definition closeCodeBlock :: "renderer \<Rightarrow> renderer" where
  "closeCodeBlock st =
     (if isCodeBlock st
      then st\<lparr>elements := elements st @ [Pre (codeContent st)],
              codeContent := [], isCodeBlock := False\<rparr>
      else st)"

definition push :: "element \<Rightarrow> renderer \<Rightarrow> renderer" where
  "push e st = st\<lparr>elements := elements st @ [e]\<rparr>"

definition addItem :: "listTag \<Rightarrow> string \<Rightarrow> renderer \<Rightarrow> renderer" where
  "addItem tag item st =
     (let st = (if listType st \<noteq> Some tag then closeList st else st)
      in st\<lparr>listType := Some tag, listItems := listItems st @ [item]\<rparr>)"

text \<open>The body of \<^verbatim>\<open>lines.forEach((line, index) => ...)\<close>.\<close>

definition processLine :: "renderer \<Rightarrow> string \<Rightarrow> renderer" where
  "processLine st line =
     (if startsWith (trim line) ''```''
      then (if isCodeBlock st then closeCodeBlock st
            else (closeList st)\<lparr>isCodeBlock := True\<rparr>)
      else if isCodeBlock st
      then st\<lparr>codeContent := codeContent st @ line @ [CHR 0x0A]\<rparr>
      else
        (let trimmedLine = trim line
         in if startsWith trimmedLine ''### '' then push (H3 (drop 4 trimmedLine)) (closeList st)
            else if startsWith trimmedLine ''## '' then push (H2 (drop 3 trimmedLine)) (closeList st)
            else if startsWith trimmedLine ''# '' then push (H1 (drop 2 trimmedLine)) (closeList st)
            else if startsWith trimmedLine ''* '' \<or> startsWith trimmedLine ''- ''
            then addItem ul (drop 2 trimmedLine) st
            else (case match_ordered trimmedLine of
                    Some item \<Rightarrow> addItem ol item st
                  | None \<Rightarrow>
                      if trimmedLine \<noteq> [] then push (P (formatLine line)) (closeList st)
                      else st)))"

text \<open>
  The lines are processed in order from the initial state; then \<^verbatim>\<open>closeList()\<close> and
  \<^verbatim>\<open>closeCodeBlock()\<close> run and the elements are returned.
\<close>

definition renderLines :: "string list \<Rightarrow> element list" where
  "renderLines ls = elements (closeCodeBlock (closeList (foldl processLine initialRenderer ls)))"

definition FormattedContent :: "string \<Rightarrow> element list" where
  "FormattedContent content = renderLines (split_lines content)"

subsection \<open>Properties of the renderer\<close>

lemma split_lines_no_newline: "CHR 0x0A \<notin> set s \<Longrightarrow> split_lines s = [s]"
  by (induction s) auto

lemma split_lines_line:
  "CHR 0x0A \<notin> set l \<Longrightarrow> split_lines (l @ CHR 0x0A # s) = l # split_lines s"
  by (induction l) auto

lemma split_lines_join:
  "ls \<noteq> [] \<Longrightarrow> \<forall>l \<in> set ls. CHR 0x0A \<notin> set l \<Longrightarrow> split_lines (join [CHR 0x0A] ls) = ls"
proof (induction ls)
  case Nil
  then show ?case by simp
next
  case (Cons l ls)
  show ?case
  proof (cases ls)
    case Nil
    with Cons.prems show ?thesis by (simp add: split_lines_no_newline)
  next
    case (Cons m ms)
    with Cons.prems Cons.IH have "split_lines (join [CHR 0x0A] ls) = ls" by simp
    with Cons Cons.prems show ?thesis by (simp add: split_lines_line)
  qed
qed

lemma FormattedContent_join:
  "ls \<noteq> [] \<Longrightarrow> \<forall>l \<in> set ls. CHR 0x0A \<notin> set l \<Longrightarrow>
   FormattedContent (join [CHR 0x0A] ls) = renderLines ls"
  by (simp add: FormattedContent_def split_lines_join)

lemma replace_spans_prefix:
  assumes "d \<noteq> []" "hd d \<notin> set pre"
  shows "replace_spans d tag (pre @ s) = pre @ replace_spans d tag s"
  using assms(2)
proof (induction pre)
  case Nil
  show ?case by simp
next
  case (Cons c pre)
  from Cons.prems have c: "c \<noteq> hd d" by auto
  have "take (length d) (c # pre @ s) \<noteq> d"
  proof
    assume "take (length d) (c # pre @ s) = d"
    then have "hd (take (length d) (c # pre @ s)) = hd d" by simp
    moreover have "0 < length d" using assms(1) by simp
    ultimately show False using c by (simp add: hd_take)
  qed
  with Cons show ?case by simp
qed

lemma replace_spans_plain:
  assumes "d \<noteq> []" "hd d \<notin> set s"
  shows "replace_spans d tag s = s"
  using replace_spans_prefix [OF assms, of tag "[]"] by simp

lemma formatLine_prefix:
  assumes "CHR ''*'' \<notin> set pre"
  shows "formatLine (pre @ s) = (case formatLine s of InnerHTML h \<Rightarrow> InnerHTML (pre @ h))"
  using assms by (simp add: formatLine_def replace_spans_prefix)

lemma formatLine_plain: "CHR ''*'' \<notin> set line \<Longrightarrow> formatLine line = InnerHTML line"
  by (simp add: formatLine_def replace_spans_plain)

definition wellFormed :: "renderer \<Rightarrow> bool" where
  "wellFormed st \<longleftrightarrow>
     (listType st = None \<longleftrightarrow> listItems st = []) \<and>
     (isCodeBlock st \<longrightarrow> listType st = None)"

lemma closeList_props:
  "wellFormed st \<Longrightarrow> listType (closeList st) = None \<and> listItems (closeList st) = [] \<and>
     isCodeBlock (closeList st) = isCodeBlock st \<and> codeContent (closeList st) = codeContent st"
  by (cases "listType st") (auto simp: closeList_def wellFormed_def)

lemma closeList_none: "listType st = None \<Longrightarrow> closeList st = st"
  by (simp add: closeList_def)

lemma wellFormed_closeList: "wellFormed st \<Longrightarrow> wellFormed (closeList st)"
  by (auto simp: closeList_def wellFormed_def split: option.splits)

lemma wellFormed_push: "wellFormed st \<Longrightarrow> wellFormed (push e st)"
  by (simp add: wellFormed_def push_def)

lemma wellFormed_addItem: "wellFormed st \<Longrightarrow> \<not> isCodeBlock st \<Longrightarrow> wellFormed (addItem tag item st)"
  by (auto simp: addItem_def closeList_def wellFormed_def Let_def split: option.splits)

lemma wellFormed_processLine: "wellFormed st \<Longrightarrow> wellFormed (processLine st line)"
proof -
  assume w: "wellFormed st"
  have a: "wellFormed (closeCodeBlock st)" using w by (auto simp: closeCodeBlock_def wellFormed_def)
  have b: "wellFormed ((closeList st)\<lparr>isCodeBlock := True\<rparr>)"
    using closeList_props [OF w] by (simp add: wellFormed_def)
  have c: "wellFormed (st\<lparr>codeContent := codeContent st @ line @ [CHR 0x0A]\<rparr>)"
    using w by (simp add: wellFormed_def)
  have d: "wellFormed (push e (closeList st))" for e
    using w by (intro wellFormed_push wellFormed_closeList)
  have e: "\<not> isCodeBlock st \<Longrightarrow> wellFormed (addItem tag item st)" for tag item
    using w by (rule wellFormed_addItem)
  show ?thesis
    unfolding processLine_def Let_def using a b c d e w by (simp split: option.splits)
qed

lemma wellFormed_foldl: "wellFormed st \<Longrightarrow> wellFormed (foldl processLine st ls)"
  by (induction ls arbitrary: st) (simp_all add: wellFormed_processLine)

lemma wellFormed_initial: "wellFormed initialRenderer"
  by (simp add: wellFormed_def initialRenderer_def)

lemma processLine_in_fence:
  "isCodeBlock st \<Longrightarrow> \<not> startsWith (trim line) ''```'' \<Longrightarrow>
   processLine st line = st\<lparr>codeContent := codeContent st @ line @ [CHR 0x0A]\<rparr>"
  by (simp add: processLine_def)

lemma foldl_in_fence:
  "isCodeBlock st \<Longrightarrow> \<forall>l \<in> set body. \<not> startsWith (trim l) ''```'' \<Longrightarrow>
   foldl processLine st body
     = st\<lparr>codeContent := codeContent st @ concat (map (\<lambda>l. l @ [CHR 0x0A]) body)\<rparr>"
proof (induction body arbitrary: st)
  case Nil
  show ?case by simp
next
  case (Cons l body)
  from Cons.prems have p: "processLine st l = st\<lparr>codeContent := codeContent st @ l @ [CHR 0x0A]\<rparr>"
    by (simp add: processLine_in_fence)
  have "foldl processLine (processLine st l) body
      = (processLine st l)\<lparr>codeContent := codeContent (processLine st l) @ concat (map (\<lambda>l. l @ [CHR 0x0A]) body)\<rparr>"
    using Cons.prems by (intro Cons.IH) (simp_all add: p)
  then show ?case by (simp add: p)
qed

lemma renderLines_unterminated:
  assumes "isCodeBlock (foldl processLine initialRenderer ls)"
  shows "renderLines ls = elements (foldl processLine initialRenderer ls)
           @ [Pre (codeContent (foldl processLine initialRenderer ls))]"
proof -
  let ?st = "foldl processLine initialRenderer ls"
  have "wellFormed ?st" by (intro wellFormed_foldl wellFormed_initial)
  with assms have "listType ?st = None" by (simp add: wellFormed_def)
  then have "closeList ?st = ?st" by (rule closeList_none)
  with assms show ?thesis by (simp add: renderLines_def closeCodeBlock_def)
qed

lemma processLine_open_fence:
  "startsWith (trim f) ''```'' \<Longrightarrow>
   processLine initialRenderer f = initialRenderer\<lparr>isCodeBlock := True\<rparr>"
  by (simp add: processLine_def initialRenderer_def closeList_def)

lemma fenced_block:
  assumes f: "startsWith (trim f) ''```''" and g: "startsWith (trim g) ''```''"
    and b: "\<forall>l \<in> set body. \<not> startsWith (trim l) ''```''"
  shows "renderLines (f # body) = [Pre (concat (map (\<lambda>l. l @ [CHR 0x0A]) body))]"
    and "renderLines (f # body @ [g]) = [Pre (concat (map (\<lambda>l. l @ [CHR 0x0A]) body))]"
proof -
  let ?code = "concat (map (\<lambda>l. l @ [CHR 0x0A]) body)"
  have "foldl processLine initialRenderer (f # body)
        = foldl processLine (initialRenderer\<lparr>isCodeBlock := True\<rparr>) body"
    by (simp add: processLine_open_fence [OF f])
  also have "\<dots> = (initialRenderer\<lparr>isCodeBlock := True\<rparr>)
        \<lparr>codeContent := codeContent (initialRenderer\<lparr>isCodeBlock := True\<rparr>) @ ?code\<rparr>"
    using b by (intro foldl_in_fence) simp_all
  finally have s: "foldl processLine initialRenderer (f # body)
        = initialRenderer\<lparr>isCodeBlock := True, codeContent := ?code\<rparr>"
    by (simp add: initialRenderer_def)
  show "renderLines (f # body) = [Pre ?code]"
    unfolding renderLines_def s by (simp add: closeList_def closeCodeBlock_def initialRenderer_def)
  have "foldl processLine initialRenderer (f # body @ [g])
        = processLine (foldl processLine initialRenderer (f # body)) g"
    by simp
  also have "\<dots> = initialRenderer\<lparr>elements := [Pre ?code]\<rparr>"
    unfolding s using g by (simp add: processLine_def closeCodeBlock_def initialRenderer_def)
  finally show "renderLines (f # body @ [g]) = [Pre ?code]"
    unfolding renderLines_def by (simp add: closeList_def closeCodeBlock_def initialRenderer_def)
qed

lemma processLine_blank:
  "\<not> isCodeBlock st \<Longrightarrow> trim b = [] \<Longrightarrow> processLine st b = st"
  by (simp add: processLine_def startsWith_def match_ordered_def)

lemma renderLines_blank:
  assumes "\<not> isCodeBlock (foldl processLine initialRenderer ls1)" "trim b = []"
  shows "renderLines (ls1 @ b # ls2) = renderLines (ls1 @ ls2)"
  using assms by (simp add: renderLines_def processLine_blank)

text \<open>
  A line that the block pass, outside a code fence, treats as a paragraph: its trimmed form
  is not empty and matches none of the fence, heading and list-item markers.
\<close>

definition isParagraph :: "string \<Rightarrow> bool" where
  "isParagraph line \<longleftrightarrow>
     trim line \<noteq> [] \<and>
     \<not> startsWith (trim line) ''```'' \<and>
     \<not> startsWith (trim line) ''### '' \<and>
     \<not> startsWith (trim line) ''## '' \<and>
     \<not> startsWith (trim line) ''# '' \<and>
     \<not> startsWith (trim line) ''* '' \<and>
     \<not> startsWith (trim line) ''- '' \<and>
     match_ordered (trim line) = None"

lemma processLine_paragraph:
  "\<not> isCodeBlock st \<Longrightarrow> isParagraph line \<Longrightarrow>
   processLine st line = push (P (formatLine line)) (closeList st)"
  by (simp add: processLine_def isParagraph_def)

lemma FormattedContent_paragraph:
  assumes "CHR 0x0A \<notin> set line" "isParagraph line"
  shows "FormattedContent line = [P (formatLine line)]"
  using assms
  by (simp add: FormattedContent_def renderLines_def split_lines_no_newline processLine_paragraph
      initialRenderer_def closeList_def closeCodeBlock_def push_def)

lemma bullet_not_other:
  assumes "startsWith t ''* '' \<or> startsWith t ''- ''"
  shows "\<not> startsWith t ''```''" "\<not> startsWith t ''### ''" "\<not> startsWith t ''## ''"
    "\<not> startsWith t ''# ''"
  using assms by (cases t; cases "tl t"; auto simp: startsWith_def)+

lemma processLine_bullet:
  assumes "\<not> isCodeBlock st" "startsWith (trim l) ''* '' \<or> startsWith (trim l) ''- ''"
  shows "processLine st l = addItem ul (drop 2 (trim l)) st"
  using assms(1) bullet_not_other [OF assms(2)] assms(2) by (simp add: processLine_def)

lemma ordered_not_other:
  assumes "match_ordered t = Some item"
  shows "\<not> startsWith t ''```''" "\<not> startsWith t ''### ''" "\<not> startsWith t ''## ''"
    "\<not> startsWith t ''# ''" "\<not> startsWith t ''* ''" "\<not> startsWith t ''- ''"
proof -
  from assms have "takeWhile is_digit t \<noteq> []" by (auto simp: match_ordered_def split: if_splits)
  then obtain c cs where t: "t = c # cs" "is_digit c" by (cases t) (auto split: if_splits)
  then show "\<not> startsWith t ''```''" "\<not> startsWith t ''### ''" "\<not> startsWith t ''## ''"
    "\<not> startsWith t ''# ''" "\<not> startsWith t ''* ''" "\<not> startsWith t ''- ''"
    by (auto simp: startsWith_def is_digit_def)
qed

lemma processLine_ordered:
  assumes "\<not> isCodeBlock st" "match_ordered (trim l) = Some item"
  shows "processLine st l = addItem ol item st"
  using assms ordered_not_other [OF assms(2)] by (simp add: processLine_def)

lemma two_items_one_list:
  assumes "processLine initialRenderer l1 = addItem tag i1 initialRenderer"
    and "\<And>st. \<not> isCodeBlock st \<Longrightarrow> processLine st l2 = addItem tag i2 st"
    and "trim b = []"
  shows "renderLines [l1, b, l2] = [ListTag tag [formatLine i1, formatLine i2]]"
proof -
  let ?s1 = "initialRenderer\<lparr>listType := Some tag, listItems := [i1]\<rparr>"
  have s1: "processLine initialRenderer l1 = ?s1"
    unfolding assms(1) by (simp add: addItem_def initialRenderer_def closeList_def)
  have n: "\<not> isCodeBlock ?s1" by (simp add: initialRenderer_def)
  have s2: "processLine ?s1 b = ?s1" using n assms(3) by (rule processLine_blank)
  have s3: "processLine ?s1 l2 = initialRenderer\<lparr>listType := Some tag, listItems := [i1, i2]\<rparr>"
    unfolding assms(2) [OF n] by (simp add: addItem_def initialRenderer_def)
  have f: "foldl processLine initialRenderer [l1, b, l2]
        = initialRenderer\<lparr>listType := Some tag, listItems := [i1, i2]\<rparr>"
    by (simp add: s1 s2 s3)
  show ?thesis
    unfolding renderLines_def f by (simp add: closeList_def closeCodeBlock_def initialRenderer_def)
qed

lemma find_close_found:
  assumes "d \<noteq> []" "hd d \<notin> set a" "\<forall>c \<in> set a. \<not> is_line_terminator c"
  shows "find_close d (a @ d @ rest) = Some (a, rest)"
  using assms(2,3)
proof (induction a)
  case Nil
  from assms(1) obtain x xs where d: "d = x # xs" by (cases d) auto
  show ?case by (simp add: d)
next
  case (Cons c a)
  from Cons.prems have c: "c \<noteq> hd d" by auto
  have "take (length d) (c # a @ d @ rest) \<noteq> d"
  proof
    assume "take (length d) (c # a @ d @ rest) = d"
    then have "hd (take (length d) (c # a @ d @ rest)) = hd d" by simp
    moreover have "0 < length d" using assms(1) by simp
    ultimately show False using c by (simp add: hd_take)
  qed
  with Cons show ?case by simp
qed

lemma replace_spans_span:
  assumes "d \<noteq> []" "hd d \<notin> set a" "\<forall>c \<in> set a. \<not> is_line_terminator c"
  shows "replace_spans d tag (d @ a @ d @ rest)
       = ''<'' @ tag @ ''>'' @ a @ ''</'' @ tag @ ''>'' @ replace_spans d tag rest"
proof -
  from assms(1) obtain x xs where d: "d = x # xs" by (cases d) auto
  have t: "take (length d) (d @ a @ d @ rest) = d" by simp
  have f: "find_close d (drop (length d) (d @ a @ d @ rest)) = Some (a, rest)"
    using find_close_found [OF assms] by simp
  have "replace_spans d tag (x # xs @ a @ d @ rest)
       = ''<'' @ tag @ ''>'' @ a @ ''</'' @ tag @ ''>'' @ replace_spans d tag rest"
    using t f assms(1) unfolding d by (simp del: find_close.simps)
  then show ?thesis unfolding d by simp
qed

lemma formatLine_strong:
  assumes "CHR ''*'' \<notin> set a" "\<forall>c \<in> set a. \<not> is_line_terminator c"
  shows "formatLine (''**'' @ a @ ''**'') = InnerHTML (''<strong>'' @ a @ ''</strong>'')"
proof -
  have "replace_spans ''**'' ''strong'' (''**'' @ a @ ''**'' @ []) = ''<strong>'' @ a @ ''</strong>''"
    using assms by (subst replace_spans_span) simp_all
  moreover have "replace_spans ''*'' ''em'' (''<strong>'' @ a @ ''</strong>'') = ''<strong>'' @ a @ ''</strong>''"
    using assms(1) by (intro replace_spans_plain) simp_all
  ultimately show ?thesis by (simp add: formatLine_def)
qed

lemma formatLine_em:
  assumes "CHR ''*'' \<notin> set a" "a \<noteq> []" "\<forall>c \<in> set a. \<not> is_line_terminator c"
  shows "formatLine (''*'' @ a @ ''*'') = InnerHTML (''<em>'' @ a @ ''</em>'')"
proof -
  from assms(2) obtain c cs where a: "a = c # cs" by (cases a) auto
  with assms(1) have c: "c \<noteq> CHR ''*''" by auto
  have "replace_spans ''**'' ''strong'' (CHR ''*'' # c # cs @ ''*'') = CHR ''*'' # replace_spans ''**'' ''strong'' (c # cs @ ''*'')"
    using c by simp
  also have "replace_spans ''**'' ''strong'' (c # cs @ ''*'') = (c # cs) @ replace_spans ''**'' ''strong'' ''*''"
    using assms(1) a replace_spans_prefix [of "''**''" "c # cs" "''strong''" "''*''"] by simp
  also have "replace_spans ''**'' ''strong'' ''*'' = ''*''" by simp
  finally have s: "replace_spans ''**'' ''strong'' (''*'' @ a @ ''*'') = ''*'' @ a @ ''*''"
    by (simp add: a)
  have "replace_spans ''*'' ''em'' (''*'' @ a @ ''*'' @ []) = ''<em>'' @ a @ ''</em>''"
    using assms by (subst replace_spans_span) simp_all
  with s show ?thesis by (simp add: formatLine_def)
qed

lemma formatLine_strong_tail:
  assumes "CHR ''*'' \<notin> set a" "\<forall>c \<in> set a. \<not> is_line_terminator c"
  shows "formatLine (''**'' @ a @ ''**'' @ rest)
       = (case formatLine rest of InnerHTML h \<Rightarrow> InnerHTML (''<strong>'' @ a @ ''</strong>'' @ h))"
proof -
  let ?S = "replace_spans ''**'' ''strong'' rest"
  have s: "replace_spans ''**'' ''strong'' (''**'' @ a @ ''**'' @ rest)
         = (''<strong>'' @ a @ ''</strong>'') @ ?S"
    using assms by (subst replace_spans_span) simp_all
  have "hd ''*'' \<notin> set (''<strong>'' @ a @ ''</strong>'')" using assms(1) by simp
  then have e: "replace_spans ''*'' ''em'' ((''<strong>'' @ a @ ''</strong>'') @ ?S)
         = (''<strong>'' @ a @ ''</strong>'') @ replace_spans ''*'' ''em'' ?S"
    by (intro replace_spans_prefix) simp_all
  show ?thesis unfolding formatLine_def Let_def s e by simp
qed

lemma formatLine_em_tail:
  assumes "CHR ''*'' \<notin> set a" "a \<noteq> []" "\<forall>c \<in> set a. \<not> is_line_terminator c"
    and "rest = [] \<or> hd rest \<noteq> CHR ''*''"
  shows "formatLine (''*'' @ a @ ''*'' @ rest)
       = (case formatLine rest of InnerHTML h \<Rightarrow> InnerHTML (''<em>'' @ a @ ''</em>'' @ h))"
proof -
  let ?S = "replace_spans ''**'' ''strong'' rest"
  from assms(2) obtain c cs where a: "a = c # cs" by (cases a) auto
  with assms(1) have c: "c \<noteq> CHR ''*''" by auto
  have "replace_spans ''**'' ''strong'' (CHR ''*'' # c # cs @ ''*'' @ rest)
      = CHR ''*'' # replace_spans ''**'' ''strong'' ((c # cs) @ ''*'' @ rest)"
    using c by simp
  also have "replace_spans ''**'' ''strong'' ((c # cs) @ ''*'' @ rest)
      = (c # cs) @ replace_spans ''**'' ''strong'' (''*'' @ rest)"
    using assms(1) a by (intro replace_spans_prefix) simp_all
  also have "replace_spans ''**'' ''strong'' (''*'' @ rest) = ''*'' @ ?S"
    using assms(4) by (cases rest) simp_all
  finally have s: "replace_spans ''**'' ''strong'' (''*'' @ a @ ''*'' @ rest) = ''*'' @ a @ ''*'' @ ?S"
    by (simp add: a)
  have e: "replace_spans ''*'' ''em'' (''*'' @ a @ ''*'' @ ?S)
         = ''<em>'' @ a @ ''</em>'' @ replace_spans ''*'' ''em'' ?S"
    using assms by (subst replace_spans_span) simp_all
  show ?thesis unfolding formatLine_def Let_def s e by simp
qed

lemma heading_not_other:
  shows "startsWith t ''### '' \<Longrightarrow> \<not> startsWith t ''```''"
    and "startsWith t ''## '' \<Longrightarrow> \<not> startsWith t ''```'' \<and> \<not> startsWith t ''### ''"
    and "startsWith t ''# '' \<Longrightarrow> \<not> startsWith t ''```'' \<and> \<not> startsWith t ''### '' \<and> \<not> startsWith t ''## ''"
  by (cases t; cases "tl t"; cases "tl (tl t)"; auto simp: startsWith_def)+

lemma processLine_heading:
  assumes "\<not> isCodeBlock st"
  shows "startsWith (trim l) ''### '' \<Longrightarrow> processLine st l = push (H3 (drop 4 (trim l))) (closeList st)"
    and "startsWith (trim l) ''## '' \<Longrightarrow> processLine st l = push (H2 (drop 3 (trim l))) (closeList st)"
    and "startsWith (trim l) ''# '' \<Longrightarrow> processLine st l = push (H1 (drop 2 (trim l))) (closeList st)"
  using assms heading_not_other [of "trim l"] by (simp_all add: processLine_def)

lemma renderLines_single:
  assumes "processLine initialRenderer l = push e (closeList initialRenderer)"
  shows "renderLines [l] = [e]"
  unfolding renderLines_def foldl.simps assms
  by (simp add: initialRenderer_def closeList_def closeCodeBlock_def push_def)

lemma renderLines_single_item:
  assumes "processLine initialRenderer l = addItem tag item initialRenderer"
  shows "renderLines [l] = [ListTag tag [formatLine item]]"
  unfolding renderLines_def foldl.simps assms
  by (simp add: initialRenderer_def closeList_def closeCodeBlock_def addItem_def)

lemma initial_not_in_fence: "\<not> isCodeBlock initialRenderer"
  by (simp add: initialRenderer_def)

lemma FormattedContent_heading:
  assumes "CHR 0x0A \<notin> set l"
  shows "startsWith (trim l) ''# '' \<Longrightarrow> FormattedContent l = [H1 (drop 2 (trim l))]"
    and "startsWith (trim l) ''## '' \<Longrightarrow> FormattedContent l = [H2 (drop 3 (trim l))]"
    and "startsWith (trim l) ''### '' \<Longrightarrow> FormattedContent l = [H3 (drop 4 (trim l))]"
  unfolding FormattedContent_def split_lines_no_newline [OF assms]
  by (rule renderLines_single, rule processLine_heading [OF initial_not_in_fence], assumption)+

lemma FormattedContent_item:
  assumes "CHR 0x0A \<notin> set l"
  shows "startsWith (trim l) ''* '' \<or> startsWith (trim l) ''- ''
           \<Longrightarrow> FormattedContent l = [ListTag ul [formatLine (drop 2 (trim l))]]"
    and "match_ordered (trim l) = Some item \<Longrightarrow> FormattedContent l = [ListTag ol [formatLine item]]"
proof -
  show "FormattedContent l = [ListTag ul [formatLine (drop 2 (trim l))]]"
    if "startsWith (trim l) ''* '' \<or> startsWith (trim l) ''- ''"
    unfolding FormattedContent_def split_lines_no_newline [OF assms]
    using processLine_bullet [OF initial_not_in_fence that] by (rule renderLines_single_item)
  show "FormattedContent l = [ListTag ol [formatLine item]]" if "match_ordered (trim l) = Some item"
    unfolding FormattedContent_def split_lines_no_newline [OF assms]
    using processLine_ordered [OF initial_not_in_fence that] by (rule renderLines_single_item)
qed

lemma FormattedContent_fenced:
  assumes "startsWith (trim f) ''```''" "startsWith (trim g) ''```''"
    and "CHR 0x0A \<notin> set f" "CHR 0x0A \<notin> set g"
    and "\<forall>l \<in> set body. CHR 0x0A \<notin> set l \<and> \<not> startsWith (trim l) ''```''"
  shows "FormattedContent (join [CHR 0x0A] (f # body @ [g]))
       = [Pre (concat (map (\<lambda>l. l @ [CHR 0x0A]) body))]"
proof -
  have "\<forall>l \<in> set (f # body @ [g]). CHR 0x0A \<notin> set l" using assms(3,4,5) by auto
  then have "FormattedContent (join [CHR 0x0A] (f # body @ [g])) = renderLines (f # body @ [g])"
    by (intro FormattedContent_join) simp_all
  also have "\<dots> = [Pre (concat (map (\<lambda>l. l @ [CHR 0x0A]) body))]"
    using assms(1,2,5) by (intro fenced_block(2)) simp_all
  finally show ?thesis .
qed

subsection \<open>The claims about the renderer\<close>

text \<open>
  Claim C4 as stated fails: nothing escapes the text. A paragraph line \<^verbatim>\<open><script>...\<close> and
  a list item \<^verbatim>\<open><img ... onerror=...>\<close> become the inner HTML of their nodes as they are;
  and the two passes do overlap: on \<^verbatim>\<open>***a***\<close> the strong pass leaves an asterisk inside
  and one outside its span, which the em pass pairs across the closing tag.
\<close>

theorem formatLine_escapes_counterexample:
  "FormattedContent ''<script>alert(1)</script>'' = [P (InnerHTML ''<script>alert(1)</script>'')] \<and>
   FormattedContent ''- <img src=x onerror=alert(1)>''
     = [ListTag ul [InnerHTML ''<img src=x onerror=alert(1)>'']] \<and>
   formatLine ''***a***'' = InnerHTML ''<strong><em>a</strong></em>''"
  by code_simp

text \<open>
  Claim C4, amended. \<open>formatLine\<close> runs the strong pass and then the em pass over the raw
  text and hands the result over as inner HTML, escaping nothing. A text without asterisks
  and line terminators between double asterisks becomes a strong span, between single
  asterisks (when it is not empty) an em span, also when more text follows: the text
  after a strong span is formatted in the same way, and so is the text after an em span
  when it does not begin with an asterisk. The text before the first asterisk is copied as
  it is and a text without asterisks is returned unchanged. A paragraph line is rendered
  as a paragraph whose inner HTML is \<open>formatLine\<close> of the line, a bullet or numbered
  line as a list whose item has as inner HTML \<open>formatLine\<close> of the text after the marker:
  whatever markup the text contains is in the inner HTML. A heading line is rendered as a
  heading whose child is the text after the marker, and the lines between two fences as
  a \<^verbatim>\<open>pre\<close> whose child is those lines: \<open>formatLine\<close> is not applied to them, and they
  are inserted as text.
\<close>

theorem formatLine_copies_text:
  "(CHR ''*'' \<notin> set a \<longrightarrow> (\<forall>c \<in> set a. \<not> is_line_terminator c) \<longrightarrow>
      formatLine (''**'' @ a @ ''**'') = InnerHTML (''<strong>'' @ a @ ''</strong>'') \<and>
      (a \<noteq> [] \<longrightarrow> formatLine (''*'' @ a @ ''*'') = InnerHTML (''<em>'' @ a @ ''</em>'')) \<and>
      formatLine (''**'' @ a @ ''**'' @ rest)
        = (case formatLine rest of InnerHTML h \<Rightarrow> InnerHTML (''<strong>'' @ a @ ''</strong>'' @ h)) \<and>
      (a \<noteq> [] \<longrightarrow> (rest = [] \<or> hd rest \<noteq> CHR ''*'') \<longrightarrow>
         formatLine (''*'' @ a @ ''*'' @ rest)
           = (case formatLine rest of InnerHTML h \<Rightarrow> InnerHTML (''<em>'' @ a @ ''</em>'' @ h)))) \<and>
   (CHR ''*'' \<notin> set pre \<longrightarrow>
      formatLine (pre @ s) = (case formatLine s of InnerHTML h \<Rightarrow> InnerHTML (pre @ h))) \<and>
   (CHR ''*'' \<notin> set line \<longrightarrow> formatLine line = InnerHTML line) \<and>
   (CHR ''*'' \<notin> set line \<longrightarrow> CHR 0x0A \<notin> set line \<longrightarrow> isParagraph line \<longrightarrow>
      FormattedContent line = [P (InnerHTML line)]) \<and>
   (CHR 0x0A \<notin> set line \<longrightarrow>
      (isParagraph line \<longrightarrow> FormattedContent line = [P (formatLine line)]) \<and>
      (startsWith (trim line) ''* '' \<or> startsWith (trim line) ''- '' \<longrightarrow>
         FormattedContent line = [ListTag ul [formatLine (drop 2 (trim line))]]) \<and>
      (match_ordered (trim line) = Some item \<longrightarrow>
         FormattedContent line = [ListTag ol [formatLine item]]) \<and>
      (startsWith (trim line) ''# '' \<longrightarrow> FormattedContent line = [H1 (drop 2 (trim line))]) \<and>
      (startsWith (trim line) ''## '' \<longrightarrow> FormattedContent line = [H2 (drop 3 (trim line))]) \<and>
      (startsWith (trim line) ''### '' \<longrightarrow> FormattedContent line = [H3 (drop 4 (trim line))])) \<and>
   (startsWith (trim f) ''```'' \<longrightarrow> startsWith (trim g) ''```'' \<longrightarrow>
    CHR 0x0A \<notin> set f \<longrightarrow> CHR 0x0A \<notin> set g \<longrightarrow>
    (\<forall>l \<in> set body. CHR 0x0A \<notin> set l \<and> \<not> startsWith (trim l) ''```'') \<longrightarrow>
      FormattedContent (join [CHR 0x0A] (f # body @ [g]))
        = [Pre (concat (map (\<lambda>l. l @ [CHR 0x0A]) body))])"
proof -
  have spans: "formatLine (''**'' @ a @ ''**'') = InnerHTML (''<strong>'' @ a @ ''</strong>'') \<and>
      (a \<noteq> [] \<longrightarrow> formatLine (''*'' @ a @ ''*'') = InnerHTML (''<em>'' @ a @ ''</em>'')) \<and>
      formatLine (''**'' @ a @ ''**'' @ rest)
        = (case formatLine rest of InnerHTML h \<Rightarrow> InnerHTML (''<strong>'' @ a @ ''</strong>'' @ h)) \<and>
      (a \<noteq> [] \<longrightarrow> (rest = [] \<or> hd rest \<noteq> CHR ''*'') \<longrightarrow>
         formatLine (''*'' @ a @ ''*'' @ rest)
           = (case formatLine rest of InnerHTML h \<Rightarrow> InnerHTML (''<em>'' @ a @ ''</em>'' @ h)))"
    if "CHR ''*'' \<notin> set a" "\<forall>c \<in> set a. \<not> is_line_terminator c"
    using formatLine_strong [OF that] formatLine_em [OF that(1) _ that(2)]
      formatLine_strong_tail [OF that] formatLine_em_tail [OF that(1) _ that(2)]
    by blast
  have para: "FormattedContent line = [P (InnerHTML line)]"
    if "CHR ''*'' \<notin> set line" "CHR 0x0A \<notin> set line" "isParagraph line"
    using FormattedContent_paragraph [OF that(2,3)] formatLine_plain [OF that(1)] by simp
  have blocks: "(isParagraph line \<longrightarrow> FormattedContent line = [P (formatLine line)]) \<and>
      (startsWith (trim line) ''* '' \<or> startsWith (trim line) ''- '' \<longrightarrow>
         FormattedContent line = [ListTag ul [formatLine (drop 2 (trim line))]]) \<and>
      (match_ordered (trim line) = Some item \<longrightarrow>
         FormattedContent line = [ListTag ol [formatLine item]]) \<and>
      (startsWith (trim line) ''# '' \<longrightarrow> FormattedContent line = [H1 (drop 2 (trim line))]) \<and>
      (startsWith (trim line) ''## '' \<longrightarrow> FormattedContent line = [H2 (drop 3 (trim line))]) \<and>
      (startsWith (trim line) ''### '' \<longrightarrow> FormattedContent line = [H3 (drop 4 (trim line))])"
    if "CHR 0x0A \<notin> set line"
    using FormattedContent_paragraph [OF that] FormattedContent_item [OF that]
      FormattedContent_heading [OF that]
    by blast
  have fence: "FormattedContent (join [CHR 0x0A] (f # body @ [g]))
        = [Pre (concat (map (\<lambda>l. l @ [CHR 0x0A]) body))]"
    if "startsWith (trim f) ''```''" "startsWith (trim g) ''```''"
      "CHR 0x0A \<notin> set f" "CHR 0x0A \<notin> set g"
      "\<forall>l \<in> set body. CHR 0x0A \<notin> set l \<and> \<not> startsWith (trim l) ''```''"
    using that by (rule FormattedContent_fenced)
  show ?thesis
    using spans para blocks fence formatLine_prefix [of pre s] formatLine_plain [of line] by blast
qed

text \<open>
  The two constructs on the text \<^verbatim>\<open>x<y\<close>, alone and followed by more text; the markup
  \<^verbatim>\<open><b>\<close> in front of a strong span, copied into the inner HTML; the script line, a
  paragraph line without asterisks; a bullet item and a numbered item with markup; a
  heading and a fenced block, whose markup and asterisks are text.
\<close>

theorem formatLine_copies_text_witness:
  "CHR ''*'' \<notin> set ''x<y'' \<and>
   formatLine ''**x<y**'' = InnerHTML ''<strong>x<y</strong>'' \<and>
   formatLine ''*x<y*'' = InnerHTML ''<em>x<y</em>'' \<and>
   formatLine ''**x<y** and *z*'' = InnerHTML ''<strong>x<y</strong> and <em>z</em>'' \<and>
   formatLine ''*x<y* and *z*'' = InnerHTML ''<em>x<y</em> and <em>z</em>'' \<and>
   CHR ''*'' \<notin> set ''<b>'' \<and>
   formatLine (''<b>'' @ ''**x**'') = InnerHTML ''<b><strong>x</strong>'' \<and>
   CHR ''*'' \<notin> set ''<script>alert(1)</script>'' \<and>
   CHR 0x0A \<notin> set ''<script>alert(1)</script>'' \<and>
   isParagraph ''<script>alert(1)</script>'' \<and>
   formatLine ''<script>alert(1)</script>'' = InnerHTML ''<script>alert(1)</script>'' \<and>
   FormattedContent ''<script>alert(1)</script>'' = [P (InnerHTML ''<script>alert(1)</script>'')] \<and>
   FormattedContent ''- **a** <b>'' = [ListTag ul [InnerHTML ''<strong>a</strong> <b>'']] \<and>
   FormattedContent ''1. <i>x</i>'' = [ListTag ol [InnerHTML ''<i>x</i>'']] \<and>
   FormattedContent ''# <script>**x**'' = [H1 ''<script>**x**''] \<and>
   FormattedContent (join [CHR 0x0A] [''```'', ''<b>*x*</b>'', ''```'']) = [Pre (''<b>*x*</b>'' @ [CHR 0x0A])]"
proof -
  have a: "CHR ''*'' \<notin> set ''<b>''" by simp
  have b: "CHR ''*'' \<notin> set ''<script>alert(1)</script>''" by simp
  have c: "CHR 0x0A \<notin> set ''<script>alert(1)</script>''" by simp
  have d: "isParagraph ''<script>alert(1)</script>''" by code_simp
  have e: "formatLine ''**x**'' = InnerHTML ''<strong>x</strong>''" by code_simp
  have g: "CHR ''*'' \<notin> set ''x<y''" "\<forall>c \<in> set ''x<y''. \<not> is_line_terminator c" "''x<y'' \<noteq> []"
    by (simp_all add: is_line_terminator_def)
  have r: "formatLine '' and *z*'' = InnerHTML '' and <em>z</em>''" by code_simp
  have r': "'' and *z*'' = [] \<or> hd '' and *z*'' \<noteq> CHR ''*''" by simp
  have f: "startsWith (trim ''```'') ''```''" by code_simp
  have f': "CHR 0x0A \<notin> set ''```''" by simp
  have k1: "\<not> startsWith (trim ''<b>*x*</b>'') ''```''" by code_simp
  have k: "\<forall>l \<in> set [''<b>*x*</b>'']. CHR 0x0A \<notin> set l \<and> \<not> startsWith (trim l) ''```''"
    using k1 by simp
  note t = formatLine_copies_text [where a = "''x<y''" and rest = "'' and *z*''" and pre = "''<b>''"
      and s = "''**x**''" and line = "''<script>alert(1)</script>''"
      and f = "''```''" and g = "''```''" and body = "[''<b>*x*</b>'']"]
  from t g have s: "formatLine (''**'' @ ''x<y'' @ ''**'') = InnerHTML (''<strong>'' @ ''x<y'' @ ''</strong>'')"
    "formatLine (''*'' @ ''x<y'' @ ''*'') = InnerHTML (''<em>'' @ ''x<y'' @ ''</em>'')"
    by blast+
  from t g have "formatLine (''**'' @ ''x<y'' @ ''**'' @ '' and *z*'')
      = (case formatLine '' and *z*'' of InnerHTML h \<Rightarrow> InnerHTML (''<strong>'' @ ''x<y'' @ ''</strong>'' @ h))"
    by blast
  then have s1: "formatLine ''**x<y** and *z*'' = InnerHTML ''<strong>x<y</strong> and <em>z</em>''"
    unfolding r by simp
  from t g r' have "formatLine (''*'' @ ''x<y'' @ ''*'' @ '' and *z*'')
      = (case formatLine '' and *z*'' of InnerHTML h \<Rightarrow> InnerHTML (''<em>'' @ ''x<y'' @ ''</em>'' @ h))"
    by blast
  then have s2: "formatLine ''*x<y* and *z*'' = InnerHTML ''<em>x<y</em> and <em>z</em>''"
    unfolding r by simp
  from t a e have p: "formatLine (''<b>'' @ ''**x**'') = InnerHTML (''<b>'' @ ''<strong>x</strong>'')"
    by simp
  from t b c d have q: "formatLine ''<script>alert(1)</script>'' = InnerHTML ''<script>alert(1)</script>''"
    "FormattedContent ''<script>alert(1)</script>'' = [P (InnerHTML ''<script>alert(1)</script>'')]"
    by blast+
  from t f f' k have "FormattedContent (join [CHR 0x0A] (''```'' # [''<b>*x*</b>''] @ [''```'']))
      = [Pre (concat (map (\<lambda>l. l @ [CHR 0x0A]) [''<b>*x*</b>'']))]"
    by blast
  then have w: "FormattedContent (join [CHR 0x0A] [''```'', ''<b>*x*</b>'', ''```''])
      = [Pre (''<b>*x*</b>'' @ [CHR 0x0A])]"
    by simp
  have u1: "CHR 0x0A \<notin> set ''- **a** <b>''" by simp
  have u2: "startsWith (trim ''- **a** <b>'') ''* '' \<or> startsWith (trim ''- **a** <b>'') ''- ''"
    by code_simp
  have u3: "formatLine (drop 2 (trim ''- **a** <b>'')) = InnerHTML ''<strong>a</strong> <b>''"
    by code_simp
  from formatLine_copies_text [where line = "''- **a** <b>''"] u1 u2
  have "FormattedContent ''- **a** <b>'' = [ListTag ul [formatLine (drop 2 (trim ''- **a** <b>''))]]"
    by blast
  then have u: "FormattedContent ''- **a** <b>'' = [ListTag ul [InnerHTML ''<strong>a</strong> <b>'']]"
    unfolding u3 .
  have o1: "CHR 0x0A \<notin> set ''1. <i>x</i>''" by simp
  have o2: "match_ordered (trim ''1. <i>x</i>'') = Some ''<i>x</i>''" by code_simp
  have o3: "formatLine ''<i>x</i>'' = InnerHTML ''<i>x</i>''" by code_simp
  from formatLine_copies_text [where line = "''1. <i>x</i>''" and item = "''<i>x</i>''"] o1 o2
  have "FormattedContent ''1. <i>x</i>'' = [ListTag ol [formatLine ''<i>x</i>'']]"
    by blast
  then have o: "FormattedContent ''1. <i>x</i>'' = [ListTag ol [InnerHTML ''<i>x</i>'']]"
    unfolding o3 .
  have h1: "CHR 0x0A \<notin> set ''# <script>**x**''" by simp
  have h2: "startsWith (trim ''# <script>**x**'') ''# ''" by code_simp
  have h3: "drop 2 (trim ''# <script>**x**'') = ''<script>**x**''" by code_simp
  from formatLine_copies_text [where line = "''# <script>**x**''"] h1 h2
  have "FormattedContent ''# <script>**x**'' = [H1 (drop 2 (trim ''# <script>**x**''))]"
    by blast
  then have h: "FormattedContent ''# <script>**x**'' = [H1 ''<script>**x**'']"
    unfolding h3 .
  show ?thesis using s s1 s2 p q a b c d g(1) u o h w by simp
qed

text \<open>
  Claim C5 as stated fails: an empty line between two items of the same list type does not
  close the list. The two items come out as one list, for bullets and for numbers.
\<close>

theorem blank_line_flush_counterexample:
  "FormattedContent ''- a\<newline>\<newline>- b'' = [ListTag ul [InnerHTML ''a'', InnerHTML ''b'']] \<and>
   FormattedContent ''1. a\<newline>\<newline>2. b'' = [ListTag ol [InnerHTML ''a'', InnerHTML ''b'']]"
  by code_simp

text \<open>
  Claim C5, amended. Outside a code fence, a line whose trimmed form is empty changes
  nothing: it produces no block node and leaves an open list open. Dropping such a line
  from the lines does not change the output, and for every input of the form item line,
  empty line, item line of the same list type, the output is one list with both items.
\<close>

theorem blank_line_is_skipped:
  "(\<not> isCodeBlock st \<longrightarrow> trim b = [] \<longrightarrow> processLine st b = st) \<and>
   (\<not> isCodeBlock (foldl processLine initialRenderer ls1) \<longrightarrow> trim b = [] \<longrightarrow>
      renderLines (ls1 @ b # ls2) = renderLines (ls1 @ ls2)) \<and>
   (trim b = [] \<longrightarrow> (\<forall>l \<in> set [l1, b, l2]. CHR 0x0A \<notin> set l) \<longrightarrow>
    (startsWith (trim l1) ''* '' \<or> startsWith (trim l1) ''- '') \<longrightarrow>
    (startsWith (trim l2) ''* '' \<or> startsWith (trim l2) ''- '') \<longrightarrow>
      FormattedContent (l1 @ [CHR 0x0A] @ b @ [CHR 0x0A] @ l2)
        = [ListTag ul [formatLine (drop 2 (trim l1)), formatLine (drop 2 (trim l2))]]) \<and>
   (trim b = [] \<longrightarrow> (\<forall>l \<in> set [l1, b, l2]. CHR 0x0A \<notin> set l) \<longrightarrow>
    match_ordered (trim l1) = Some i1 \<longrightarrow> match_ordered (trim l2) = Some i2 \<longrightarrow>
      FormattedContent (l1 @ [CHR 0x0A] @ b @ [CHR 0x0A] @ l2)
        = [ListTag ol [formatLine i1, formatLine i2]])"
proof -
  have n: "\<not> isCodeBlock initialRenderer" by (simp add: initialRenderer_def)
  have c: "FormattedContent (l1 @ [CHR 0x0A] @ b @ [CHR 0x0A] @ l2) = renderLines [l1, b, l2]"
    if "\<forall>l \<in> set [l1, b, l2]. CHR 0x0A \<notin> set l"
    using FormattedContent_join [of "[l1, b, l2]"] that by simp
  have u: "FormattedContent (l1 @ [CHR 0x0A] @ b @ [CHR 0x0A] @ l2)
        = [ListTag ul [formatLine (drop 2 (trim l1)), formatLine (drop 2 (trim l2))]]"
    if "trim b = []" "\<forall>l \<in> set [l1, b, l2]. CHR 0x0A \<notin> set l"
      "startsWith (trim l1) ''* '' \<or> startsWith (trim l1) ''- ''"
      "startsWith (trim l2) ''* '' \<or> startsWith (trim l2) ''- ''"
    unfolding c [OF that(2)]
    using processLine_bullet [OF n that(3)] processLine_bullet [OF _ that(4)] that(1)
    by (rule two_items_one_list)
  have o: "FormattedContent (l1 @ [CHR 0x0A] @ b @ [CHR 0x0A] @ l2)
        = [ListTag ol [formatLine i1, formatLine i2]]"
    if "trim b = []" "\<forall>l \<in> set [l1, b, l2]. CHR 0x0A \<notin> set l"
      "match_ordered (trim l1) = Some i1" "match_ordered (trim l2) = Some i2"
    unfolding c [OF that(2)]
    using processLine_ordered [OF n that(3)] processLine_ordered [OF _ that(4)] that(1)
    by (rule two_items_one_list)
  show ?thesis using processLine_blank renderLines_blank u o by blast
qed

text \<open>
  A line of two spaces after an open bullet list leaves the state as it is; a blank line
  dropped from a sequence of lines; and the two forms of input, with a bullet list and with
  a numbered list.
\<close>

theorem blank_line_is_skipped_witness:
  "processLine \<lparr>elements = [], listType = Some ul, listItems = [''a''], isCodeBlock = False,
                codeContent = []\<rparr> ''  ''
     = \<lparr>elements = [], listType = Some ul, listItems = [''a''], isCodeBlock = False, codeContent = []\<rparr> \<and>
   renderLines ([''# T'', ''- a''] @ '''' # [''- b'']) = renderLines ([''# T'', ''- a''] @ [''- b'']) \<and>
   FormattedContent ''- a\<newline>\<newline>* b'' = [ListTag ul [InnerHTML ''a'', InnerHTML ''b'']] \<and>
   FormattedContent ''1. a\<newline>  \<newline>2. b'' = [ListTag ol [InnerHTML ''a'', InnerHTML ''b'']]"
proof -
  define st where "st = \<lparr>elements = [], listType = Some ul, listItems = [''a''], isCodeBlock = False,
                codeContent = []\<rparr>"
  have h1: "\<not> isCodeBlock st" by (simp add: st_def)
  have h2: "trim ''  '' = []" "trim '''' = []" by code_simp+
  have h3: "\<not> isCodeBlock (foldl processLine initialRenderer [''# T'', ''- a''])" by code_simp
  have h4: "startsWith (trim ''- a'') ''* '' \<or> startsWith (trim ''- a'') ''- ''"
    "startsWith (trim ''* b'') ''* '' \<or> startsWith (trim ''* b'') ''- ''" by code_simp+
  have h5: "match_ordered (trim ''1. a'') = Some ''a''" "match_ordered (trim ''2. b'') = Some ''b''"
    by code_simp+
  have h6: "\<forall>l \<in> set [''- a'', '''', ''* b'']. CHR 0x0A \<notin> set l"
    "\<forall>l \<in> set [''1. a'', ''  '', ''2. b'']. CHR 0x0A \<notin> set l" by simp_all
  have f: "formatLine (drop 2 (trim ''- a'')) = InnerHTML ''a''"
    "formatLine (drop 2 (trim ''* b'')) = InnerHTML ''b''"
    "formatLine ''a'' = InnerHTML ''a''" "formatLine ''b'' = InnerHTML ''b''" by code_simp+
  from blank_line_is_skipped [of st "''  ''"] h1 h2
  have a: "processLine st ''  '' = st" by blast
  from blank_line_is_skipped [of _ "''''" "[''# T'', ''- a'']" "[''- b'']"] h2 h3
  have b: "renderLines ([''# T'', ''- a''] @ '''' # [''- b'']) = renderLines ([''# T'', ''- a''] @ [''- b''])"
    by blast
  from blank_line_is_skipped [of _ "''''" _ _ "''- a''" "''* b''"] h2 h4 h6(1)
  have c: "FormattedContent (''- a'' @ [CHR 0x0A] @ '''' @ [CHR 0x0A] @ ''* b'')
      = [ListTag ul [formatLine (drop 2 (trim ''- a'')), formatLine (drop 2 (trim ''* b''))]]"
    by blast
  from blank_line_is_skipped [of _ "''  ''" _ _ "''1. a''" "''2. b''" "''a''" "''b''"] h2 h5 h6(2)
  have d: "FormattedContent (''1. a'' @ [CHR 0x0A] @ ''  '' @ [CHR 0x0A] @ ''2. b'')
      = [ListTag ol [formatLine ''a'', formatLine ''b'']]"
    by blast
  show ?thesis using a b c d unfolding f st_def by simp
qed

text \<open>
  Claim C6. Inside a code fence every line that is not itself a fence line is appended to
  the code buffer as it is, followed by a line feed, whatever markers it starts with, and
  nothing else changes. When the input ends inside a fence, the buffer is still emitted as
  a last code block. An opening fence line followed by lines that are not fence lines
  renders as exactly one code block holding those lines, with or without a closing fence
  line; so the three-line input of scenario 5 renders as the one code block
  \<^verbatim>\<open># not a heading\<close> (and its line feed), with no heading.
\<close>

theorem code_fence_semantics:
  "(isCodeBlock st \<longrightarrow> \<not> startsWith (trim line) ''```'' \<longrightarrow>
      processLine st line = st\<lparr>codeContent := codeContent st @ line @ [CHR 0x0A]\<rparr>) \<and>
   (isCodeBlock (foldl processLine initialRenderer (split_lines content)) \<longrightarrow>
      FormattedContent content
        = elements (foldl processLine initialRenderer (split_lines content))
          @ [Pre (codeContent (foldl processLine initialRenderer (split_lines content)))]) \<and>
   (startsWith (trim f) ''```'' \<longrightarrow> startsWith (trim g) ''```'' \<longrightarrow>
    (\<forall>l \<in> set body. \<not> startsWith (trim l) ''```'') \<longrightarrow>
    (\<forall>l \<in> set (f # body @ [g]). CHR 0x0A \<notin> set l) \<longrightarrow>
      FormattedContent (join [CHR 0x0A] (f # body))
        = [Pre (concat (map (\<lambda>l. l @ [CHR 0x0A]) body))] \<and>
      FormattedContent (join [CHR 0x0A] (f # body @ [g]))
        = [Pre (concat (map (\<lambda>l. l @ [CHR 0x0A]) body))]) \<and>
   FormattedContent ''```\<newline># not a heading\<newline>```'' = [Pre ''# not a heading\<newline>'']"
proof -
  have e: "FormattedContent ''```\<newline># not a heading\<newline>```'' = [Pre ''# not a heading\<newline>'']"
    by code_simp
  have u: "FormattedContent content
        = elements (foldl processLine initialRenderer (split_lines content))
          @ [Pre (codeContent (foldl processLine initialRenderer (split_lines content)))]"
    if "isCodeBlock (foldl processLine initialRenderer (split_lines content))"
    unfolding FormattedContent_def using that by (rule renderLines_unterminated)
  have b: "FormattedContent (join [CHR 0x0A] (f # body))
        = [Pre (concat (map (\<lambda>l. l @ [CHR 0x0A]) body))] \<and>
      FormattedContent (join [CHR 0x0A] (f # body @ [g]))
        = [Pre (concat (map (\<lambda>l. l @ [CHR 0x0A]) body))]"
    if "startsWith (trim f) ''```''" "startsWith (trim g) ''```''"
      "\<forall>l \<in> set body. \<not> startsWith (trim l) ''```''"
      "\<forall>l \<in> set (f # body @ [g]). CHR 0x0A \<notin> set l"
  proof -
    have "FormattedContent (join [CHR 0x0A] (f # body)) = renderLines (f # body)"
      using that(4) by (intro FormattedContent_join) simp_all
    moreover have "FormattedContent (join [CHR 0x0A] (f # body @ [g])) = renderLines (f # body @ [g])"
      using that(4) by (intro FormattedContent_join) simp_all
    ultimately show ?thesis using fenced_block [OF that(1,2,3)] by simp
  qed
  show ?thesis
    using processLine_in_fence u b e by blast
qed

text \<open>
  Inside a fence the line \<^verbatim>\<open># not a heading\<close> goes to the buffer; an input that ends inside
  its fence still gives the code block, after the heading before it; and a fence around a
  heading line and a numbered line, without and with its closing fence line.
\<close>

theorem code_fence_semantics_witness:
  "processLine \<lparr>elements = [], listType = None, listItems = [], isCodeBlock = True,
                codeContent = ''x\<newline>''\<rparr> ''# not a heading''
     = \<lparr>elements = [], listType = None, listItems = [], isCodeBlock = True,
        codeContent = ''x\<newline># not a heading\<newline>''\<rparr> \<and>
   FormattedContent ''# T\<newline>```js\<newline>- item'' = [H1 ''T'', Pre ''- item\<newline>''] \<and>
   FormattedContent ''```\<newline># a\<newline>1. b'' = [Pre ''# a\<newline>1. b\<newline>''] \<and>
   FormattedContent ''```\<newline># a\<newline>1. b\<newline> ```'' = [Pre ''# a\<newline>1. b\<newline>'']"
proof -
  define st where "st = \<lparr>elements = [], listType = None, listItems = [], isCodeBlock = True,
                codeContent = ''x\<newline>''\<rparr>"
  have h1: "isCodeBlock st" by (simp add: st_def)
  have h2: "\<not> startsWith (trim ''# not a heading'') ''```''" by code_simp
  have h3: "isCodeBlock (foldl processLine initialRenderer (split_lines ''# T\<newline>```js\<newline>- item''))"
    by code_simp
  have h4: "startsWith (trim ''```'') ''```''" "startsWith (trim '' ```'') ''```''" by code_simp+
  have h5: "\<forall>l \<in> set [''# a'', ''1. b'']. \<not> startsWith (trim l) ''```''" by code_simp
  have h6: "\<forall>l \<in> set (''```'' # [''# a'', ''1. b''] @ ['' ```'']). CHR 0x0A \<notin> set l" by simp
  have v: "elements (foldl processLine initialRenderer (split_lines ''# T\<newline>```js\<newline>- item'')) = [H1 ''T'']"
    "codeContent (foldl processLine initialRenderer (split_lines ''# T\<newline>```js\<newline>- item'')) = ''- item\<newline>''"
    by code_simp+
  from code_fence_semantics [of st "''# not a heading''"] h1 h2
  have a: "processLine st ''# not a heading'' = st\<lparr>codeContent := codeContent st @ ''# not a heading'' @ [CHR 0x0A]\<rparr>"
    by blast
  from code_fence_semantics [of _ _ "''# T\<newline>```js\<newline>- item''"] h3
  have b: "FormattedContent ''# T\<newline>```js\<newline>- item''
      = elements (foldl processLine initialRenderer (split_lines ''# T\<newline>```js\<newline>- item''))
        @ [Pre (codeContent (foldl processLine initialRenderer (split_lines ''# T\<newline>```js\<newline>- item'')))]"
    by blast
  from code_fence_semantics [of _ _ _ "''```''" "'' ```''" "[''# a'', ''1. b'']"] h4 h5 h6
  have c: "FormattedContent (join [CHR 0x0A] (''```'' # [''# a'', ''1. b'']))
             = [Pre (concat (map (\<lambda>l. l @ [CHR 0x0A]) [''# a'', ''1. b'']))]"
    "FormattedContent (join [CHR 0x0A] (''```'' # [''# a'', ''1. b''] @ ['' ```'']))
             = [Pre (concat (map (\<lambda>l. l @ [CHR 0x0A]) [''# a'', ''1. b'']))]"
    by blast+
  show ?thesis using a b c unfolding v st_def by simp
qed

end
